theory Spec2Isabelle
  imports Complex_Main "HOL-Library.Word" "HOL-Library.Multiset" "HOL-Library.Monad_Syntax"
begin

unbundle bit_operations_syntax

chapter \<open>Isolator: the expression quantification sampler\<close>

text \<open>
  A shallow embedding of the parts of \<^verbatim>\<open>sampler.cpp\<close> and \<^verbatim>\<open>fragment_model.cpp\<close> that the
  specification makes claims about. Arrays are lists, \<^verbatim>\<open>unsigned long\<close> is a 64-bit word,
  array indices are natural numbers with every out-of-range access written out, and
  aborts are values of a sum type.
\<close>

section \<open>The sparse weight matrix: \<^verbatim>\<open>WeightMatrix\<close>\<close>

text \<open>
  \<^verbatim>\<open>unsigned int\<close> values are natural numbers; where the source adds, the result is taken
  modulo \<open>2 ^ 32\<close>.
\<close>

definition u32 :: "nat \<Rightarrow> nat" where
  "u32 n = n mod 2 ^ 32"

text \<open>
  Reading an array inside its bounds, and the difference of two \<^verbatim>\<open>unsigned int\<close>, which
  wraps around.
\<close>

definition cell :: "'a list \<Rightarrow> nat \<Rightarrow> 'a option" where
  "cell xs i = (if i < length xs then Some (xs ! i) else None)"

definition usub32 :: "nat \<Rightarrow> nat \<Rightarrow> nat" where
  "usub32 a b = (a + 2 ^ 32 - b) mod 2 ^ 32"

lemma sub_mod_wrap:
  fixes a b n :: nat
  assumes "b \<le> a" "a < n"
  shows "(a + n - b) mod n = a - b"
proof -
  from assms(1) have e: "a + n - b = (a - b) + n" by arith
  from assms have l: "a - b < n" by arith
  have "(a + n - b) mod n = ((a - b) + n) mod n" by (simp only: e)
  also have "\<dots> = (a - b) mod n" by (simp only: mod_add_self2)
  also have "\<dots> = a - b" using l by (rule mod_less)
  finally show ?thesis .
qed

lemma usub32_minus: "b \<le> a \<Longrightarrow> a < 2 ^ 32 \<Longrightarrow> usub32 a b = a - b"
  unfolding usub32_def by (rule sub_mod_wrap)

text \<open>
  A row-compressed sparse matrix. Row \<open>i\<close> is the pair of arrays \<^verbatim>\<open>idxs[i]\<close> (column
  indices) and \<^verbatim>\<open>rows[i]\<close> (weights); \<^verbatim>\<open>rowlens[i]\<close> cells of them are in use and
  \<^verbatim>\<open>reserved[i]\<close> are allocated. The lists hold the cells that have been written; the
  allocated but unwritten cells hold no value. The weights have any type \<open>'w\<close>: the matrix
  only stores and moves them.
\<close>

record 'w WeightMatrix =
  nrow :: nat
  ncol :: nat
  rowlens :: "nat list"
  reserved :: "nat list"
  rows :: "'w list list"
  idxs :: "nat list list"
  compacted :: bool

definition new_WeightMatrix :: "nat \<Rightarrow> 'w WeightMatrix" where
  "new_WeightMatrix n =
     \<lparr>nrow = n, ncol = 0, rowlens = replicate n 0, reserved = replicate n 0,
      rows = replicate n [], idxs = replicate n [], compacted = False\<rparr>"

text \<open>
  Writing cell \<open>k\<close> of an array whose first \<open>length xs\<close> cells have been written. In
  \<^verbatim>\<open>push\<close> the cell is \<open>rowlens[i]\<close>, the first unwritten one.
\<close>

definition put :: "'a list \<Rightarrow> nat \<Rightarrow> 'a \<Rightarrow> 'a list" where
  "put xs k v = (if k < length xs then xs[k := v] else xs @ [v])"

text \<open>
  \<^verbatim>\<open>push(i, j, w)\<close>. A row index outside the matrix and a write beyond the allocated
  cells are undefined behaviour: the result is \<open>None\<close>.
\<close>

definition push :: "'w WeightMatrix \<Rightarrow> nat \<Rightarrow> nat \<Rightarrow> 'w \<Rightarrow> 'w WeightMatrix option" where
  "push W i j w =
     (if i < nrow W then
        let res = reserved W ! i;
            len = rowlens W ! i;
            newsize = (if res = 0 then 1 else if res < 100 then u32 (2 * res) else u32 (res + 100));
            res' = (if len \<ge> res then newsize else res)
        in if len < res'
           then Some (W\<lparr>reserved := (reserved W)[i := res'],
                        idxs := (idxs W)[i := put (idxs W ! i) len j],
                        rows := (rows W)[i := put (rows W ! i) len w],
                        rowlens := (rowlens W)[i := u32 (len + 1)]\<rparr>)
           else None
      else None)"

subsection \<open>Sorting a row\<close>

text \<open>
  \<^verbatim>\<open>sortrow\<close> sorts the two arrays of a row by column index, moving column indices and
  weights together: every \<^verbatim>\<open>std::swap\<close> on \<^verbatim>\<open>idx\<close> is followed by the same swap on \<^verbatim>\<open>row\<close>.
\<close>

type_synonym 'w row = "nat list \<times> 'w list"

definition swap :: "'w row \<Rightarrow> nat \<Rightarrow> nat \<Rightarrow> 'w row" where
  "swap r a b =
     (case r of (idx, row) \<Rightarrow>
        (idx[a := idx ! b, b := idx ! a], row[a := row ! b, b := row ! a]))"

definition median_of_three :: "nat list \<Rightarrow> nat \<Rightarrow> nat \<Rightarrow> nat \<Rightarrow> nat" where
  "median_of_three idx a b c =
     (let (x0, x1) = (if idx ! a < idx ! b then (b, a) else (a, b));
          (x1, x2) = (if idx ! x1 < idx ! c then (c, x1) else (x1, c));
          (x0, x1) = (if idx ! x0 < idx ! x1 then (x1, x0) else (x0, x1))
      in x1)"

text \<open>
  Ranges shorter than 7 are sorted by selection: the inner loop finds the position of the
  least column index of \<open>[u, v)\<close>, the outer loop swaps it to the front.
\<close>

definition min_step :: "nat list \<Rightarrow> nat \<Rightarrow> nat \<times> nat \<Rightarrow> nat \<times> nat" where
  "min_step idx a m = (case m of (minpos, minval) \<Rightarrow>
     if idx ! a < minval then (a, idx ! a) else (minpos, minval))"

definition min_pos :: "nat list \<Rightarrow> nat \<Rightarrow> nat \<Rightarrow> nat" where
  "min_pos idx u v = fst (fold (min_step idx) [u + 1 ..< v] (u, idx ! u))"

definition insert_sort :: "'w row \<Rightarrow> nat \<Rightarrow> nat \<Rightarrow> 'w row" where
  "insert_sort r u v = fold (\<lambda>u r. swap r u (min_pos (fst r) u v)) [u ..< v - 1] r"

text \<open>
  Longer ranges are partitioned around the median of three: the pivot goes to the end,
  the cells with an index at most the pivot's are swapped to the front, and the pivot is
  swapped behind them. The result is the position \<open>a\<close> of the pivot.
\<close>

definition part_step :: "nat \<Rightarrow> nat \<Rightarrow> nat \<times> 'w row \<Rightarrow> nat \<times> 'w row" where
  "part_step pval b ar = (case ar of (a, r) \<Rightarrow>
     if fst r ! b \<le> pval then (a + 1, swap r a b) else (a, r))"

definition partition :: "'w row \<Rightarrow> nat \<Rightarrow> nat \<Rightarrow> nat \<times> 'w row" where
  "partition r u v =
     (let p = median_of_three (fst r) u (u + (v - u) div 2) (v - 1);
          pval = fst r ! p;
          r1 = swap r p (v - 1);
          (a, r2) = fold (part_step pval) [u ..< v - 1] (u, r1)
      in (a, swap r2 a (v - 1)))"

lemma part_fold_bound:
  "fst (fold (part_step pval) bs (a, r)) \<le> a + length bs \<and> a \<le> fst (fold (part_step pval) bs (a, r))"
proof (induction bs arbitrary: a r)
  case Nil
  show ?case by simp
next
  case (Cons b bs)
  show ?case
    using Cons.IH[of "a + 1" "swap r a b"] Cons.IH[of a r]
    by (auto simp: part_step_def)
qed

lemma partition_bounds:
  "u < v \<Longrightarrow> u \<le> fst (partition r u v) \<and> fst (partition r u v) < v"
  using part_fold_bound[of "fst r ! median_of_three (fst r) u (u + (v - u) div 2) (v - 1)"
      "[u ..< v - 1]" u "swap r (median_of_three (fst r) u (u + (v - u) div 2) (v - 1)) (v - 1)"]
  by (auto simp: partition_def Let_def split: prod.splits)

text \<open>
  The loop over the stack of ranges; the head of the list is the back of the deque. The
  ranges on the stack satisfy \<open>u \<le> v\<close>, so that \<open>v - u\<close> never wraps.
\<close>

function sort_loop :: "(nat \<times> nat) list \<Rightarrow> 'w row \<Rightarrow> 'w row" where
  "sort_loop [] r = r"
| "sort_loop ((u, v) # s) r =
     (if u = v then sort_loop s r
      else if v - u < 7 then sort_loop s (insert_sort r u v)
      else sort_loop ((fst (partition r u v) + 1, v) # (u, fst (partition r u v)) # s)
             (snd (partition r u v)))"
  by pat_completeness auto
termination
proof (relation "measure (\<lambda>(s, r). sum_list (map (\<lambda>(u, v). 2 * (v - u) + 1) s))")
  show "wf (measure (\<lambda>(s, r). sum_list (map (\<lambda>(u, v). 2 * (v - u) + 1) s)))"
    by simp
next
  fix u v :: nat and s :: "(nat \<times> nat) list" and r :: "'w row"
  assume "u = v"
  then show "((s, r), (u, v) # s, r) \<in> measure (\<lambda>(s, r). sum_list (map (\<lambda>(u, v). 2 * (v - u) + 1) s))"
    by simp
next
  fix u v :: nat and s :: "(nat \<times> nat) list" and r :: "'w row"
  assume "u \<noteq> v" "v - u < 7"
  then show "((s, insert_sort r u v), (u, v) # s, r)
     \<in> measure (\<lambda>(s, r). sum_list (map (\<lambda>(u, v). 2 * (v - u) + 1) s))"
    by simp
next
  fix u v :: nat and s :: "(nat \<times> nat) list" and r :: "'w row"
  assume "u \<noteq> v" "\<not> v - u < 7"
  then have "u < v" by simp
  from partition_bounds[OF this, of r]
  show "(((fst (partition r u v) + 1, v) # (u, fst (partition r u v)) # s, snd (partition r u v)),
          (u, v) # s, r)
     \<in> measure (\<lambda>(s, r). sum_list (map (\<lambda>(u, v). 2 * (v - u) + 1) s))"
    by simp arith
qed

definition sortrow :: "'w WeightMatrix \<Rightarrow> nat \<Rightarrow> 'w WeightMatrix" where
  "sortrow W i =
     (let m = rowlens W ! i
      in if m = 0 then W
         else let r = sort_loop [(0, m)] (idxs W ! i, rows W ! i)
              in W\<lparr>idxs := (idxs W)[i := fst r], rows := (rows W)[i := snd r]\<rparr>)"

subsection \<open>Compaction\<close>

text \<open>
  \<open>cells W\<close> are the column indices \<^verbatim>\<open>idxs[i][j]\<close> in the order in which the loops
  \<^verbatim>\<open>for (i < nrow) for (j < rowlens[i])\<close> visit them.

  \<^verbatim>\<open>compact\<close> reallocates the rows to their exact size, finds the greatest column, marks
  the observed columns in \<^verbatim>\<open>newidx\<close>, numbers them, sets \<^verbatim>\<open>ncol = newidx[ncol - 1] + 1\<close>,
  rewrites the column indices and sorts every row. \<^verbatim>\<open>newidx[ncol - 1]\<close> with \<open>ncol = 0\<close>
  reads the cell \<open>2 ^ 32 - 1\<close> of an array of length 0, and \<^verbatim>\<open>newidx[idxs[i][j]] = 1\<close>
  writes outside \<^verbatim>\<open>newidx\<close> when the column is not below \<^verbatim>\<open>ncol\<close>: both are \<open>None\<close>.
\<close>

definition cells :: "'w WeightMatrix \<Rightarrow> nat list" where
  "cells W = concat (map (\<lambda>i. take (rowlens W ! i) (idxs W ! i)) [0 ..< nrow W])"

definition observe :: "nat \<Rightarrow> nat \<Rightarrow> nat" where
  "observe j n = (if j \<ge> n then u32 (j + 1) else n)"

fun mark :: "nat list \<Rightarrow> nat list \<Rightarrow> nat list option" where
  "mark [] newidx = Some newidx"
| "mark (j # js) newidx = (if j < length newidx then mark js (newidx[j := 1]) else None)"

fun reassign :: "nat list \<Rightarrow> nat \<Rightarrow> nat list" where
  "reassign [] j = []"
| "reassign (x # xs) j = (if x \<noteq> 0 then j # reassign xs (u32 (j + 1)) else j # reassign xs j)"

definition exact_size :: "'w WeightMatrix \<Rightarrow> 'w WeightMatrix" where
  "exact_size W =
     W\<lparr>rows := map (\<lambda>i. if rowlens W ! i = 0 then rows W ! i
                          else take (rowlens W ! i) (rows W ! i)) [0 ..< nrow W],
       idxs := map (\<lambda>i. if rowlens W ! i = 0 then idxs W ! i
                          else take (rowlens W ! i) (idxs W ! i)) [0 ..< nrow W],
       reserved := map (\<lambda>i. if rowlens W ! i = 0 then reserved W ! i
                              else rowlens W ! i) [0 ..< nrow W]\<rparr>"

definition renumber :: "nat list \<Rightarrow> 'w WeightMatrix \<Rightarrow> 'w WeightMatrix" where
  "renumber newidx W =
     W\<lparr>idxs := map (\<lambda>i. map (\<lambda>j. newidx ! j) (take (rowlens W ! i) (idxs W ! i))
                          @ drop (rowlens W ! i) (idxs W ! i)) [0 ..< nrow W]\<rparr>"

definition compact :: "'w WeightMatrix \<Rightarrow> ('w WeightMatrix \<times> nat list) option" where
  "compact W0 =
     (let W = exact_size W0;
          ncol1 = fold observe (cells W) 0
      in do {
        marked \<leftarrow> mark (cells W) (replicate ncol1 0);
        let newidx = reassign marked 0;
        if ncol1 = 0 then None
        else do {
          let W = renumber newidx (W\<lparr>ncol := u32 (newidx ! (ncol1 - 1) + 1)\<rparr>);
          let W = fold (\<lambda>i W. sortrow W i) [0 ..< nrow W] W;
          Some (W\<lparr>compacted := True\<rparr>, newidx)
        }
      })"

text \<open>
  \<^verbatim>\<open>WeightMatrixIterator\<close>: the position is a pair (row \<open>i\<close>, cell \<open>k\<close>); the constructor and
  \<^verbatim>\<open>increment\<close> skip the rows without a further cell, and the iterator is at the end when
  \<open>i\<close> has reached \<^verbatim>\<open>nrow\<close>. \<open>entries W\<close> is the list of the entries the iteration yields.
\<close>

function skip_rows :: "'w WeightMatrix \<Rightarrow> nat \<Rightarrow> nat \<Rightarrow> nat \<times> nat" where
  "skip_rows W i k =
     (if i < nrow W \<and> k \<ge> rowlens W ! i then skip_rows W (i + 1) 0 else (i, k))"
  by pat_completeness auto
termination
  by (relation "measure (\<lambda>(W, i, k). nrow W - i)") auto

declare skip_rows.simps [simp del]

definition iter_begin :: "'w WeightMatrix \<Rightarrow> nat \<times> nat" where
  "iter_begin W = skip_rows W 0 0"

definition increment :: "'w WeightMatrix \<Rightarrow> nat \<times> nat \<Rightarrow> nat \<times> nat" where
  "increment W it = (case it of (i, k) \<Rightarrow> if i \<ge> nrow W then (i, k) else skip_rows W i (k + 1))"

lemma skip_rows_cases:
  "skip_rows W i k = (i, k) \<and> \<not> (i < nrow W \<and> k \<ge> rowlens W ! i) \<or> i < fst (skip_rows W i k)"
proof (induction W i k rule: skip_rows.induct)
  case (1 W i k)
  show ?case
  proof (cases "i < nrow W \<and> k \<ge> rowlens W ! i")
    case True
    with 1 have "skip_rows W (i + 1) 0 = (i + 1, 0) \<or> i + 1 < fst (skip_rows W (i + 1) 0)"
      by blast
    then have "i < fst (skip_rows W (i + 1) 0)" by auto
    with True show ?thesis by (simp add: skip_rows.simps[of W i k])
  next
    case False
    then show ?thesis by (auto simp: skip_rows.simps[of W i k])
  qed
qed

function entries_from :: "'w WeightMatrix \<Rightarrow> nat \<times> nat \<Rightarrow> (nat \<times> nat \<times> 'w) list" where
  "entries_from W (i, k) =
     (if i \<ge> nrow W then []
      else (i, idxs W ! i ! k, rows W ! i ! k) # entries_from W (increment W (i, k)))"
  by pat_completeness auto
termination
proof (relation "measures [\<lambda>(W, i, k). nrow W - i, \<lambda>(W, i, k). rowlens W ! i - k]")
  show "wf (measures [\<lambda>(W, i, k). nrow W - i, \<lambda>(W, i, k). rowlens W ! i - k])"
    by simp
next
  fix W :: "'w WeightMatrix" and i k :: nat
  assume "\<not> nrow W \<le> i"
  then have i: "i < nrow W" by simp
  from skip_rows_cases[of W i "k + 1"]
  show "((W, increment W (i, k)), W, i, k)
     \<in> measures [\<lambda>(W, i, k). nrow W - i, \<lambda>(W, i, k). rowlens W ! i - k]"
  proof
    assume "skip_rows W i (k + 1) = (i, k + 1) \<and> \<not> (i < nrow W \<and> rowlens W ! i \<le> k + 1)"
    with i show ?thesis by (simp add: increment_def, arith)
  next
    assume "i < fst (skip_rows W i (k + 1))"
    with i show ?thesis
      by (cases "skip_rows W i (k + 1)") (auto simp: increment_def)
  qed
qed

definition entries :: "'w WeightMatrix \<Rightarrow> (nat \<times> nat \<times> 'w) list" where
  "entries W = entries_from W (iter_begin W)"

text \<open>A sequence of \<^verbatim>\<open>push\<close> calls.\<close>

fun pushes :: "'w WeightMatrix \<Rightarrow> (nat \<times> nat \<times> 'w) list \<Rightarrow> 'w WeightMatrix option" where
  "pushes W [] = Some W"
| "pushes W ((i, j, w) # ps) = do { W' \<leftarrow> push W i j w; pushes W' ps }"


declare entries_from.simps [simp del]

lemma skip_rows_simps:
  "i < nrow W \<Longrightarrow> k < rowlens W ! i \<Longrightarrow> skip_rows W i k = (i, k)"
  "i < nrow W \<Longrightarrow> rowlens W ! i \<le> k \<Longrightarrow> skip_rows W i k = skip_rows W (Suc i) 0"
  "nrow W \<le> i \<Longrightarrow> skip_rows W i k = (i, k)"
  by (simp_all add: skip_rows.simps[of W i k])

definition row_entries :: "'w WeightMatrix \<Rightarrow> nat \<Rightarrow> nat \<Rightarrow> (nat \<times> nat \<times> 'w) list" where
  "row_entries W i k = map (\<lambda>k. (i, idxs W ! i ! k, rows W ! i ! k)) [k ..< rowlens W ! i]"

lemma row_entries_Cons:
  "k < rowlens W ! i \<Longrightarrow>
     row_entries W i k = (i, idxs W ! i ! k, rows W ! i ! k) # row_entries W i (Suc k)"
  by (simp add: row_entries_def upt_conv_Cons)

lemma row_entries_Nil: "rowlens W ! i \<le> k \<Longrightarrow> row_entries W i k = []"
  by (simp add: row_entries_def)

lemma entries_from_row:
  assumes "i < nrow W" "k < rowlens W ! i"
  shows "entries_from W (i, k) = row_entries W i k @ entries_from W (skip_rows W (Suc i) 0)"
  using assms(2)
proof (induction "rowlens W ! i - k" arbitrary: k)
  case 0
  then show ?case by simp
next
  case (Suc n)
  have step: "entries_from W (i, k)
      = (i, idxs W ! i ! k, rows W ! i ! k) # entries_from W (skip_rows W i (Suc k))"
    using assms(1) by (simp add: entries_from.simps[of W i k] increment_def)
  show ?case
  proof (cases "Suc k < rowlens W ! i")
    case True
    with Suc.hyps have "n = rowlens W ! i - Suc k" by simp
    from Suc.hyps(1)[OF this True] True show ?thesis
      using step assms(1) Suc.prems
      by (simp add: skip_rows_simps row_entries_Cons[of k])
  next
    case False
    then have "rowlens W ! i \<le> Suc k" by simp
    then show ?thesis
      using step assms(1) Suc.prems
      by (simp add: skip_rows_simps row_entries_Cons[of k] row_entries_Nil)
  qed
qed

lemma entries_from_skip:
  "entries_from W (skip_rows W i 0) = concat (map (\<lambda>i. row_entries W i 0) [i ..< nrow W])"
proof (induction "nrow W - i" arbitrary: i)
  case 0
  then show ?case
    by (simp add: skip_rows_simps entries_from.simps[of W i 0])
next
  case (Suc n)
  then have i: "i < nrow W" and n: "n = nrow W - Suc i"
    by simp_all
  note ih = Suc.hyps(1)[OF n]
  show ?case
  proof (cases "rowlens W ! i = 0")
    case True
    then show ?thesis
      using i ih by (simp add: skip_rows_simps upt_conv_Cons row_entries_Nil)
  next
    case False
    then have "0 < rowlens W ! i" by simp
    from entries_from_row[OF i this] ih show ?thesis
      using i \<open>0 < rowlens W ! i\<close> by (simp add: skip_rows_simps upt_conv_Cons)
  qed
qed

lemma entries_eq: "entries W = concat (map (\<lambda>i. row_entries W i 0) [0 ..< nrow W])"
  by (simp add: entries_def iter_begin_def entries_from_skip)

subsection \<open>Compacting a matrix without entries\<close>

text \<open>
  C1. The claim covers every sequence of \<^verbatim>\<open>push\<close> calls, also the empty one, for which it
  requires \<^verbatim>\<open>compact\<close> to return with \<^verbatim>\<open>ncol = 0\<close>. On a matrix without entries \<^verbatim>\<open>compact\<close>
  allocates \<^verbatim>\<open>newidx\<close> with length 0 and then reads \<^verbatim>\<open>newidx[ncol - 1]\<close>, which is outside the
  array: it has no defined result.
\<close>

theorem compact_without_entries:
  "pushes (new_WeightMatrix n) [] = Some (new_WeightMatrix n :: 'w WeightMatrix)
   \<and> compact (new_WeightMatrix n :: 'w WeightMatrix) = None"
proof -
  have "cells (exact_size (new_WeightMatrix n :: 'w WeightMatrix)) = []"
    by (simp add: cells_def exact_size_def new_WeightMatrix_def)
  then show ?thesis
    by (simp add: compact_def Let_def)
qed

section \<open>Connected components: the union-find of \<^verbatim>\<open>Sampler::Sampler\<close>\<close>

text \<open>
  The disjoint-set forest is the array \<^verbatim>\<open>ds\<close> of parents; a root is its own parent.
  \<^verbatim>\<open>disjset_find\<close> follows the parents to the root and, on the way back, makes every
  node of the path a child of the root: \<^verbatim>\<open>return ds[i] = disjset_find(ds, ds[i])\<close>. It
  returns the updated array and the root. A call that reads outside the array or that
  never reaches a root has no result.
\<close>

partial_function (option) disjset_find :: "nat list \<Rightarrow> nat \<Rightarrow> (nat list \<times> nat) option" where
  "disjset_find ds i =
     (if i < length ds then
        (if ds ! i = i then Some (ds, i)
         else do {
           (ds', r) \<leftarrow> disjset_find ds (ds ! i);
           Some (ds'[i := r], r)
         })
      else None)"

declare disjset_find.simps [code]

text \<open>\<^verbatim>\<open>a = disjset_find(ds, i); b = disjset_find(ds, j); ds[b] = a\<close>\<close>

definition disjset_union :: "nat list \<Rightarrow> nat \<Rightarrow> nat \<Rightarrow> nat list option" where
  "disjset_union ds i j =
     do {
       (ds, a) \<leftarrow> disjset_find ds i;
       (ds, b) \<leftarrow> disjset_find ds j;
       if b < length ds then Some (ds[b := a]) else None
     }"

subsection \<open>Roots\<close>

text \<open>
  \<open>root_of ds i r\<close>: following the parents from \<open>i\<close> ends in the root \<open>r\<close>. The array is
  a forest when every node has a root, and two nodes are in the same set when they have
  the same root.
\<close>

inductive root_of :: "nat list \<Rightarrow> nat \<Rightarrow> nat \<Rightarrow> bool" where
  root: "i < length ds \<Longrightarrow> ds ! i = i \<Longrightarrow> root_of ds i i"
| step: "i < length ds \<Longrightarrow> ds ! i \<noteq> i \<Longrightarrow> root_of ds (ds ! i) r \<Longrightarrow> root_of ds i r"

definition forest :: "nat list \<Rightarrow> bool" where
  "forest ds = (\<forall>i<length ds. \<exists>r. root_of ds i r)"

definition same_set :: "nat list \<Rightarrow> nat \<Rightarrow> nat \<Rightarrow> bool" where
  "same_set ds x y = (\<exists>r. root_of ds x r \<and> root_of ds y r)"

lemma root_of_bounds: "root_of ds i r \<Longrightarrow> i < length ds \<and> r < length ds \<and> ds ! r = r"
  by (induction rule: root_of.induct) auto

lemma root_of_det: "root_of ds i r \<Longrightarrow> root_of ds i r' \<Longrightarrow> r = r'"
proof (induction arbitrary: r' rule: root_of.induct)
  case (root i ds)
  from root.prems root.hyps show ?case
    by (cases rule: root_of.cases) auto
next
  case (step i ds r)
  from step.prems step.hyps(1,2) have "root_of ds (ds ! i) r'"
    by (cases rule: root_of.cases) auto
  then show ?case by (rule step.IH)
qed

lemma root_of_root: "root_of ds i r \<Longrightarrow> root_of ds r r"
  using root_of_bounds[of ds i r] by (auto intro: root_of.root)

lemma root_of_self: "root_of ds i r \<Longrightarrow> ds ! i = i \<Longrightarrow> r = i"
  by (cases rule: root_of.cases) auto

lemma compress_keeps_roots:
  assumes i: "root_of ds i r" and j: "root_of ds j r'"
  shows "root_of (ds[i := r]) j r'"
  using j i
proof (induction rule: root_of.induct)
  case (root j ds)
  show ?case
  proof (cases "j = i")
    case True
    with root have "r = j" by (auto dest: root_of_self)
    with True root show ?thesis by (auto intro: root_of.root)
  next
    case False
    with root show ?thesis by (auto intro: root_of.root)
  qed
next
  case (step j ds r')
  note i = step.prems
  show ?case
  proof (cases "j = i")
    case False
    with step show ?thesis by (auto intro: root_of.step)
  next
    case True
    from step.hyps have "root_of ds j r'" by (auto intro: root_of.step)
    with i True have rr: "r' = r" by (auto dest: root_of_det)
    from i have rb: "r < length ds" "ds ! r = r" using root_of_bounds by blast+
    from step.hyps True rb have ne: "r \<noteq> i" by auto
    from rb ne have "root_of (ds[i := r]) r r"
      by (auto intro: root_of.root)
    with ne step.hyps True rr show ?thesis
      by (auto intro: root_of.step)
  qed
qed

lemma forest_roots_agree:
  assumes f: "forest ds" and len: "length ds' = length ds"
    and keep: "\<And>j r. root_of ds j r \<Longrightarrow> root_of ds' j r"
  shows "forest ds'" and "root_of ds' j r \<longleftrightarrow> root_of ds j r"
proof -
  show "forest ds'"
    using f len keep unfolding forest_def by metis
  show "root_of ds' j r \<longleftrightarrow> root_of ds j r"
  proof
    assume a: "root_of ds' j r"
    then have "j < length ds" using root_of_bounds len by fastforce
    with f obtain r0 where r0: "root_of ds j r0" unfolding forest_def by blast
    from keep[OF r0] a have "r0 = r" by (rule root_of_det)
    with r0 show "root_of ds j r" by simp
  qed (rule keep)
qed

lemma disjset_find_root:
  assumes "root_of ds i r"
  shows "\<exists>ds'. disjset_find ds i = Some (ds', r) \<and> length ds' = length ds
     \<and> (\<forall>j r'. root_of ds j r' \<longrightarrow> root_of ds' j r')
     \<and> (\<forall>j<length ds. ds' ! j = ds ! j \<or> root_of ds j (ds' ! j))
     \<and> ds' ! i = r"
  using assms
proof (induction rule: root_of.induct)
  case (root i ds)
  then show ?case
    by (subst disjset_find.simps) simp
next
  case (step i ds r)
  from step.IH obtain ds1 where
    d: "disjset_find ds (ds ! i) = Some (ds1, r)" "length ds1 = length ds"
      "\<And>j r'. root_of ds j r' \<Longrightarrow> root_of ds1 j r'"
      "\<And>j. j < length ds \<Longrightarrow> ds1 ! j = ds ! j \<or> root_of ds j (ds1 ! j)"
    by blast
  have ir: "root_of ds i r"
    using step.hyps by (auto intro: root_of.step)
  then have ir1: "root_of ds1 i r" by (rule d(3))
  have "disjset_find ds i = Some (ds1[i := r], r)"
    using step.hyps(1,2) d(1) by (subst disjset_find.simps) simp
  moreover have "length (ds1[i := r]) = length ds"
    by (simp add: d(2))
  moreover have "root_of (ds1[i := r]) j r'" if "root_of ds j r'" for j r'
    using compress_keeps_roots[OF ir1 d(3)[OF that]] .
  moreover have "ds1[i := r] ! j = ds ! j \<or> root_of ds j (ds1[i := r] ! j)" if "j < length ds" for j
  proof (cases "j = i")
    case True
    with that ir show ?thesis by (simp add: d(2))
  next
    case False
    with d(4)[OF that] show ?thesis by simp
  qed
  moreover have "ds1[i := r] ! i = r"
    using step.hyps(1) by (simp add: d(2))
  ultimately show ?case by blast
qed

subsection \<open>Linking two roots\<close>

lemma link_roots:
  assumes a: "root_of ds a a" and b: "root_of ds b b" and x: "root_of ds x r"
  shows "root_of (ds[b := a]) x (if r = b then a else r)"
  using x a b
proof (induction rule: root_of.induct)
  case (root x ds)
  from root.prems have ab: "a < length ds" "ds ! a = a" "b < length ds" "ds ! b = b"
    using root_of_bounds by blast+
  show ?case
  proof (cases "x = b")
    case xb: True
    show ?thesis
    proof (cases "a = b")
      case True
      with xb ab show ?thesis by (auto intro: root_of.root)
    next
      case False
      with ab have "root_of (ds[b := a]) a a" by (auto intro: root_of.root)
      with False xb ab show ?thesis by (auto intro: root_of.step)
    qed
  next
    case False
    with root show ?thesis by (auto intro: root_of.root)
  qed
next
  case (step x ds r)
  from step.prems have "ds ! b = b" using root_of_bounds by blast
  with step.hyps have "x \<noteq> b" by auto
  with step show ?case by (auto intro: root_of.step)
qed

lemma disjset_union_correct:
  assumes f: "forest ds" and i: "i < length ds" and j: "j < length ds"
  shows "\<exists>ds'. disjset_union ds i j = Some ds' \<and> length ds' = length ds \<and> forest ds'
     \<and> (\<forall>x y. same_set ds' x y \<longleftrightarrow>
           same_set ds x y \<or> (same_set ds x i \<and> same_set ds j y) \<or> (same_set ds x j \<and> same_set ds i y))"
proof -
  from f i obtain a where a: "root_of ds i a" unfolding forest_def by blast
  from disjset_find_root[OF a] obtain ds1 where
    d1: "disjset_find ds i = Some (ds1, a)" "length ds1 = length ds"
      "\<And>j r'. root_of ds j r' \<Longrightarrow> root_of ds1 j r'"
    by blast
  note f1 = forest_roots_agree[OF f d1(2) d1(3)]
  from f1(1) j d1(2) obtain b where b: "root_of ds1 j b" unfolding forest_def by auto
  from disjset_find_root[OF b] obtain ds2 where
    d2: "disjset_find ds1 j = Some (ds2, b)" "length ds2 = length ds1"
      "\<And>j r'. root_of ds1 j r' \<Longrightarrow> root_of ds2 j r'"
    by blast
  note f2 = forest_roots_agree[OF f1(1) d2(2) d2(3)]
  have eq: "root_of ds2 x r \<longleftrightarrow> root_of ds x r" for x r
    by (simp add: f1(2) f2(2))
  have bl: "b < length ds2"
    using b root_of_bounds d2(2) by fastforce
  let ?ds = "ds2[b := a]"
  have run: "disjset_union ds i j = Some ?ds"
    using bl by (simp add: disjset_union_def d1(1) d2(1))
  have ra: "root_of ds2 a a" and rb: "root_of ds2 b b"
    using a b eq f1(2) root_of_root by blast+
  have keep: "root_of ?ds x (if r = b then a else r)" if "root_of ds2 x r" for x r
    using link_roots[OF ra rb that] .
  have len: "length ?ds = length ds" by (simp add: d2(2) d1(2))
  have fo: "forest ?ds"
    unfolding forest_def
  proof (intro allI impI)
    fix x assume "x < length ?ds"
    with f2(1) obtain r where "root_of ds2 x r" unfolding forest_def by auto
    from keep[OF this] show "\<exists>r. root_of ?ds x r" by blast
  qed
  have new: "root_of ?ds x r' \<longleftrightarrow> (\<exists>r. root_of ds x r \<and> r' = (if r = b then a else r))" for x r'
  proof
    assume n: "root_of ?ds x r'"
    then have "x < length ds2" using root_of_bounds by fastforce
    with f2(1) obtain r where r: "root_of ds2 x r" unfolding forest_def by auto
    from keep[OF r] n have "r' = (if r = b then a else r)" by (auto dest: root_of_det)
    with r eq show "\<exists>r. root_of ds x r \<and> r' = (if r = b then a else r)" by blast
  next
    assume "\<exists>r. root_of ds x r \<and> r' = (if r = b then a else r)"
    then show "root_of ?ds x r'" using keep eq by auto
  qed
  have ia: "same_set ds x i \<longleftrightarrow> root_of ds x a" for x
    unfolding same_set_def using a root_of_det by blast
  have ib: "same_set ds x j \<longleftrightarrow> root_of ds x b" for x
    unfolding same_set_def using b f1(2) root_of_det by blast
  have ia': "same_set ds i y \<longleftrightarrow> root_of ds y a" for y
    unfolding same_set_def using a root_of_det by blast
  have ib': "same_set ds j y \<longleftrightarrow> root_of ds y b" for y
    unfolding same_set_def using b f1(2) root_of_det by blast
  have "same_set ?ds x y \<longleftrightarrow>
           same_set ds x y \<or> (same_set ds x i \<and> same_set ds j y) \<or> (same_set ds x j \<and> same_set ds i y)"
    for x y
    unfolding ia ib ia' ib'
    unfolding same_set_def new
    using root_of_det[of ds x] root_of_det[of ds y] by (auto; metis)
  with run len fo show ?thesis by blast
qed


subsection \<open>The components of the weight matrix\<close>

text \<open>
  \<^verbatim>\<open>Sampler::Sampler\<close> numbers the fragments \<open>0..ncol-1\<close> and the transcripts
  \<open>ncol..ncol+nrow-1\<close>, starts from \<^verbatim>\<open>ds[i] = i\<close>, unites the transcript and the fragment
  of every entry of the matrix, calls \<^verbatim>\<open>disjset_find\<close> on every node, and then gives the
  roots the labels 0, 1, ... in the order in which the loop \<^verbatim>\<open>for (i < N)\<close> meets them.
  \<^verbatim>\<open>component_label\<close> is the hash map from roots to labels, a list of pairs in the order of
  insertion whose length is \<^verbatim>\<open>component_label.size()\<close>; \<^verbatim>\<open>component_label[k]\<close> inserts
  the value 0 for an absent key.
\<close>

fun unions :: "nat \<Rightarrow> (nat \<times> nat \<times> 'w) list \<Rightarrow> nat list \<Rightarrow> nat list option" where
  "unions n [] ds = Some ds"
| "unions n ((i, j, w) # es) ds =
     do { ds' \<leftarrow> disjset_union ds (u32 (n + i)) j; unions n es ds' }"

fun find_all :: "nat list \<Rightarrow> nat list \<Rightarrow> nat list option" where
  "find_all [] ds = Some ds"
| "find_all (i # is) ds = do { (ds', r) \<leftarrow> disjset_find ds i; find_all is ds' }"

definition label_step :: "nat \<Rightarrow> (nat \<times> nat) list \<Rightarrow> (nat \<times> nat) list" where
  "label_step k component_label =
     (case map_of component_label k of
        None \<Rightarrow> component_label @ [(k, length component_label)]
      | Some c \<Rightarrow> component_label)"

fun relabel :: "(nat \<times> nat) list \<Rightarrow> nat list \<Rightarrow> nat list \<times> (nat \<times> nat) list" where
  "relabel component_label [] = ([], component_label)"
| "relabel component_label (k # ks) =
     (case map_of component_label k of
        Some c \<Rightarrow> (case relabel component_label ks of (cs, m) \<Rightarrow> (c # cs, m))
      | None \<Rightarrow> (case relabel (component_label @ [(k, 0)]) ks of (cs, m) \<Rightarrow> (0 # cs, m)))"

record components =
  ds_labels :: "nat list"
  num_components :: nat
  transcript_component :: "nat list"

definition find_components :: "'w WeightMatrix \<Rightarrow> components option" where
  "find_components W =
     (let N = u32 (ncol W + nrow W)
      in do {
        ds \<leftarrow> unions (ncol W) (entries W) [0 ..< N];
        ds \<leftarrow> find_all [0 ..< N] ds;
        let component_label = fold (\<lambda>i. label_step (ds ! i)) [0 ..< N] [];
        let (ds, component_label) = relabel component_label ds;
        Some \<lparr>ds_labels = ds, num_components = length component_label,
               transcript_component = map (\<lambda>i. ds ! (ncol W + i)) [0 ..< nrow W]\<rparr>
      })"

subsection \<open>The transcript-fragment graph\<close>

text \<open>
  Every entry of the matrix is an edge between its transcript and its fragment. Two
  nodes are linked when a path of such edges, in either direction, connects them.
\<close>

definition edges :: "'w WeightMatrix \<Rightarrow> (nat \<times> nat) set" where
  "edges W = (\<lambda>(i, j, w). (ncol W + i, j)) ` set (entries W)"

definition linked :: "'w WeightMatrix \<Rightarrow> (nat \<times> nat) set" where
  "linked W = (edges W \<union> (edges W)\<inverse>)\<^sup>*"

lemma add_edge:
  assumes "sym S"
  shows "(x, y) \<in> (insert (i, j) (insert (j, i) S))\<^sup>* \<longleftrightarrow>
     (x, y) \<in> S\<^sup>* \<or> ((x, i) \<in> S\<^sup>* \<and> (j, y) \<in> S\<^sup>*) \<or> ((x, j) \<in> S\<^sup>* \<and> (i, y) \<in> S\<^sup>*)"
  (is "?L \<longleftrightarrow> ?R x y")
proof
  have sy: "(a, b) \<in> S\<^sup>* \<Longrightarrow> (b, a) \<in> S\<^sup>*" for a b
    using sym_rtrancl[OF assms] by (auto dest: symD)
  assume ?L
  then show "?R x y"
  proof (induction rule: rtrancl_induct)
    case base
    show ?case by simp
  next
    case (step y z)
    from step.hyps(2) consider "(y, z) \<in> S" | "y = i" "z = j" | "y = j" "z = i"
      by auto
    then show ?case
    proof cases
      case 1
      with step.IH show ?thesis
        by (meson rtrancl.rtrancl_into_rtrancl)
    next
      case 2
      with step.IH show ?thesis
        by (meson rtrancl.rtrancl_refl rtrancl_trans sy)
    next
      case 3
      with step.IH show ?thesis
        by (meson rtrancl.rtrancl_refl rtrancl_trans sy)
    qed
  qed
next
  let ?T = "insert (i, j) (insert (j, i) S)"
  have m: "(a, b) \<in> S\<^sup>* \<Longrightarrow> (a, b) \<in> ?T\<^sup>*" for a b
    by (rule rtrancl_mono[THEN subsetD, of S]) auto
  have e: "(i, j) \<in> ?T\<^sup>*" "(j, i) \<in> ?T\<^sup>*"
    by auto
  assume "?R x y"
  then show ?L
    using m e by (meson rtrancl_trans)
qed


definition tracks :: "nat \<Rightarrow> nat list \<Rightarrow> (nat \<times> nat) set \<Rightarrow> bool" where
  "tracks N ds P =
     (forest ds \<and> length ds = N \<and>
      (\<forall>x y. same_set ds x y \<longleftrightarrow> x < N \<and> y < N \<and> (x, y) \<in> (P \<union> P\<inverse>)\<^sup>*))"

lemma root_of_upt: "i < N \<Longrightarrow> root_of [0 ..< N] i i"
  by (rule root_of.root) simp_all

lemma tracks_init: "tracks N [0 ..< N] {}"
proof -
  have "same_set [0 ..< N] x y \<longleftrightarrow> x < N \<and> y < N \<and> x = y" for x y
  proof
    assume "same_set [0 ..< N] x y"
    then obtain r where r: "root_of [0 ..< N] x r" "root_of [0 ..< N] y r"
      unfolding same_set_def by blast
    then have b: "x < N" "y < N" using root_of_bounds by fastforce+
    with r root_of_upt have "r = x" "r = y" by (blast dest: root_of_det)+
    with b show "x < N \<and> y < N \<and> x = y" by simp
  next
    assume "x < N \<and> y < N \<and> x = y"
    then show "same_set [0 ..< N] x y"
      unfolding same_set_def using root_of_upt by blast
  qed
  moreover have "forest [0 ..< N]"
    unfolding forest_def using root_of_upt by auto
  ultimately show ?thesis
    by (simp add: tracks_def)
qed

lemma tracks_union:
  assumes t: "tracks N ds P" and i: "i < N" and j: "j < N"
  shows "\<exists>ds'. disjset_union ds i j = Some ds' \<and> tracks N ds' (insert (i, j) P)"
proof -
  let ?S = "P \<union> P\<inverse>"
  from t have f: "forest ds" and l: "length ds = N"
    and s: "\<And>x y. same_set ds x y \<longleftrightarrow> x < N \<and> y < N \<and> (x, y) \<in> ?S\<^sup>*"
    by (simp_all add: tracks_def)
  from disjset_union_correct[OF f, of i j] i j l obtain ds' where
    d: "disjset_union ds i j = Some ds'" "length ds' = N" "forest ds'"
      "\<And>x y. same_set ds' x y \<longleftrightarrow>
           same_set ds x y \<or> (same_set ds x i \<and> same_set ds j y) \<or> (same_set ds x j \<and> same_set ds i y)"
    by auto
  have sy: "sym ?S" by (simp add: sym_Un_converse)
  have e: "insert (i, j) P \<union> (insert (i, j) P)\<inverse> = insert (i, j) (insert (j, i) ?S)"
    by auto
  have "same_set ds' x y \<longleftrightarrow> x < N \<and> y < N \<and> (x, y) \<in> (insert (i, j) P \<union> (insert (i, j) P)\<inverse>)\<^sup>*"
    for x y
    unfolding e add_edge[OF sy] d(4) s using i j by blast
  with d show ?thesis
    by (simp add: tracks_def)
qed

lemma unions_tracks:
  assumes "tracks N ds P" "\<forall>(i, j, w) \<in> set es. n + i < N \<and> j < N" "N \<le> 2 ^ 32"
  shows "\<exists>ds'. unions n es ds = Some ds' \<and> tracks N ds' (P \<union> (\<lambda>(i, j, w). (n + i, j)) ` set es)"
  using assms(1,2)
proof (induction es arbitrary: ds P)
  case Nil
  then show ?case by simp
next
  case (Cons e es)
  obtain i j w where e: "e = (i, j, w)" by (cases e) auto
  with Cons.prems(2) have b: "n + i < N" "j < N" by simp_all
  with assms(3) have u: "u32 (n + i) = n + i"
    by (simp add: u32_def)
  from tracks_union[OF Cons.prems(1) b] obtain ds1 where
    d: "disjset_union ds (n + i) j = Some ds1" "tracks N ds1 (insert (n + i, j) P)"
    by blast
  from Cons.prems(2) have "\<forall>(i, j, w) \<in> set es. n + i < N \<and> j < N" by simp
  from Cons.IH[OF d(2) this] obtain ds' where
    "unions n es ds1 = Some ds'"
    "tracks N ds' (insert (n + i, j) P \<union> (\<lambda>(i, j, w). (n + i, j)) ` set es)"
    by blast
  then show ?case
    by (simp add: e u d(1))
qed

definition flat :: "nat list \<Rightarrow> nat \<Rightarrow> bool" where
  "flat ds i = root_of ds i (ds ! i)"

lemma disjset_find_flat:
  assumes f: "forest ds" and i: "i < length ds"
  shows "\<exists>ds' r. disjset_find ds i = Some (ds', r) \<and> length ds' = length ds \<and> forest ds'
     \<and> (\<forall>j r. root_of ds' j r \<longleftrightarrow> root_of ds j r)
     \<and> flat ds' i \<and> (\<forall>k. flat ds k \<longrightarrow> flat ds' k)"
proof -
  from f i obtain r where r: "root_of ds i r" unfolding forest_def by blast
  from disjset_find_root[OF r] obtain ds' where
    d: "disjset_find ds i = Some (ds', r)" "length ds' = length ds"
      "\<And>j r'. root_of ds j r' \<Longrightarrow> root_of ds' j r'"
      "\<And>j. j < length ds \<Longrightarrow> ds' ! j = ds ! j \<or> root_of ds j (ds' ! j)"
      "ds' ! i = r"
    by blast
  note a = forest_roots_agree[OF f d(2) d(3)]
  have "flat ds' i"
    unfolding flat_def using d(3)[OF r] d(5) by simp
  moreover have "flat ds' k" if "flat ds k" for k
  proof -
    from that have k: "root_of ds k (ds ! k)" by (simp add: flat_def)
    then have "k < length ds" using root_of_bounds by blast
    from d(4)[OF this] k show ?thesis
      unfolding flat_def using d(3) by auto
  qed
  ultimately show ?thesis
    using d(1,2) a by blast
qed

lemma find_all_flat:
  assumes "forest ds" "set is \<subseteq> {..<length ds}"
  shows "\<exists>ds'. find_all is ds = Some ds' \<and> length ds' = length ds \<and> forest ds'
     \<and> (\<forall>j r. root_of ds' j r \<longleftrightarrow> root_of ds j r)
     \<and> (\<forall>k. flat ds k \<or> k \<in> set is \<longrightarrow> flat ds' k)"
  using assms
proof (induction "is" arbitrary: ds)
  case Nil
  then show ?case by simp
next
  case (Cons i "is")
  from Cons.prems have i: "i < length ds" by simp
  from disjset_find_flat[OF Cons.prems(1) i] obtain ds1 r where
    d: "disjset_find ds i = Some (ds1, r)" "length ds1 = length ds" "forest ds1"
      "\<And>j r. root_of ds1 j r \<longleftrightarrow> root_of ds j r"
      "flat ds1 i" "\<And>k. flat ds k \<Longrightarrow> flat ds1 k"
    by blast
  from Cons.prems(2) d(2) have "set is \<subseteq> {..<length ds1}" by simp
  from Cons.IH[OF d(3) this] obtain ds' where
    e: "find_all is ds1 = Some ds'" "length ds' = length ds1" "forest ds'"
      "\<And>j r. root_of ds' j r \<longleftrightarrow> root_of ds1 j r"
      "\<And>k. flat ds1 k \<or> k \<in> set is \<Longrightarrow> flat ds' k"
    by blast
  have "find_all (i # is) ds = Some ds'"
    by (simp add: d(1) e(1))
  moreover have "flat ds' k" if "flat ds k \<or> k \<in> set (i # is)" for k
    using that d(5,6) e(5) by auto
  ultimately show ?case
    using d(2,4) e(2,3,4) by auto
qed

definition labelling :: "(nat \<times> nat) list \<Rightarrow> bool" where
  "labelling m = (distinct (map fst m) \<and> map snd m = [0 ..< length m])"

lemma label_step_labelling:
  assumes "labelling m"
  shows "labelling (label_step k m)" and "fst ` set (label_step k m) = insert k (fst ` set m)"
proof -
  show "labelling (label_step k m)"
  proof (cases "map_of m k")
    case None
    then have "k \<notin> fst ` set m" by (simp add: map_of_eq_None_iff)
    with assms None show ?thesis
      by (simp add: labelling_def label_step_def)
  next
    case (Some c)
    with assms show ?thesis by (simp add: label_step_def)
  qed
  show "fst ` set (label_step k m) = insert k (fst ` set m)"
  proof (cases "map_of m k")
    case None
    then show ?thesis by (simp add: label_step_def)
  next
    case (Some c)
    then have "k \<in> fst ` set m"
      by (metis map_of_eq_None_iff option.distinct(1))
    with Some show ?thesis by (auto simp: label_step_def)
  qed
qed

lemma label_fold_labelling:
  assumes "labelling m"
  shows "labelling (fold label_step ks m) \<and> fst ` set (fold label_step ks m) = fst ` set m \<union> set ks"
  using assms
proof (induction ks arbitrary: m)
  case Nil
  then show ?case by simp
next
  case (Cons k ks)
  from label_step_labelling[OF Cons.prems, of k] Cons.IH[of "label_step k m"]
  show ?case by auto
qed

lemma relabel_present:
  "set ks \<subseteq> fst ` set m \<Longrightarrow> relabel m ks = (map (\<lambda>k. the (map_of m k)) ks, m)"
proof (induction ks)
  case Nil
  show ?case by simp
next
  case (Cons k ks)
  then have "k \<in> fst ` set m" by simp
  then obtain c where "map_of m k = Some c"
    by (metis map_of_eq_None_iff not_Some_eq)
  with Cons show ?case by simp
qed

lemma labelling_map_of:
  assumes "labelling m" "k \<in> fst ` set m"
  shows "\<exists>c. map_of m k = Some c \<and> c < length m \<and> (k, c) \<in> set m"
proof -
  from assms(2) obtain c where c: "map_of m k = Some c"
    by (metis map_of_eq_None_iff not_Some_eq)
  then have kc: "(k, c) \<in> set m" by (rule map_of_SomeD)
  then have "c \<in> set (map snd m)" by force
  with assms(1) have "c < length m" by (simp add: labelling_def)
  with c kc show ?thesis by blast
qed

lemma labelling_inj:
  assumes "labelling m" "(a, c) \<in> set m" "(b, c) \<in> set m"
  shows "a = b"
proof -
  from assms(1) have "distinct (map snd m)" by (simp add: labelling_def)
  then have "inj_on snd (set m)" by (simp add: distinct_map)
  from inj_onD[OF this _ assms(2,3)] show ?thesis by simp
qed

lemma labelling_range:
  assumes "labelling m"
  shows "snd ` set m = {..<length m}"
proof -
  have "snd ` set m = set (map snd m)" by simp
  also have "\<dots> = {..<length m}" using assms by (auto simp: labelling_def)
  finally show ?thesis .
qed


lemma flat_same_set:
  assumes "forest ds" "\<forall>k<length ds. flat ds k" "x < length ds" "y < length ds"
  shows "ds ! x = ds ! y \<longleftrightarrow> same_set ds x y"
proof
  assume "ds ! x = ds ! y"
  with assms(2,3,4) show "same_set ds x y"
    unfolding same_set_def flat_def by metis
next
  assume "same_set ds x y"
  then obtain r where "root_of ds x r" "root_of ds y r"
    unfolding same_set_def by blast
  moreover from assms(2,3,4) have "root_of ds x (ds ! x)" "root_of ds y (ds ! y)"
    by (simp_all add: flat_def)
  ultimately show "ds ! x = ds ! y"
    by (metis root_of_det)
qed

lemma labels_of_roots:
  assumes lab: "labelling m" and keys: "fst ` set m = set ds"
  shows "relabel m ds = (map (\<lambda>k. the (map_of m k)) ds, m)"
    and "\<And>x y. x < length ds \<Longrightarrow> y < length ds \<Longrightarrow>
           the (map_of m (ds ! x)) = the (map_of m (ds ! y)) \<longleftrightarrow> ds ! x = ds ! y"
    and "set (map (\<lambda>k. the (map_of m k)) ds) = {..<length m}"
proof -
  show "relabel m ds = (map (\<lambda>k. the (map_of m k)) ds, m)"
    by (rule relabel_present) (simp add: keys)
  have look: "\<exists>c. map_of m k = Some c \<and> c < length m \<and> (k, c) \<in> set m" if "k \<in> set ds" for k
    using labelling_map_of[OF lab, of k] that keys by simp
  show "the (map_of m (ds ! x)) = the (map_of m (ds ! y)) \<longleftrightarrow> ds ! x = ds ! y"
    if "x < length ds" "y < length ds" for x y
  proof
    assume eq: "the (map_of m (ds ! x)) = the (map_of m (ds ! y))"
    from look[of "ds ! x"] look[of "ds ! y"] that obtain c c' where
      "map_of m (ds ! x) = Some c" "(ds ! x, c) \<in> set m"
      "map_of m (ds ! y) = Some c'" "(ds ! y, c') \<in> set m"
      by auto
    with eq labelling_inj[OF lab] show "ds ! x = ds ! y" by auto
  qed simp
  show "set (map (\<lambda>k. the (map_of m k)) ds) = {..<length m}"
  proof (intro set_eqI iffI)
    fix c assume "c \<in> set (map (\<lambda>k. the (map_of m k)) ds)"
    then obtain k where "k \<in> set ds" "c = the (map_of m k)" by auto
    with look[of k] show "c \<in> {..<length m}" by auto
  next
    fix c assume "c \<in> {..<length m}"
    then have "c \<in> snd ` set m" by (simp add: labelling_range[OF lab])
    then obtain k where kc: "(k, c) \<in> set m" by force
    then have k: "k \<in> set ds" using keys by force
    from lab have "distinct (map fst m)" by (simp add: labelling_def)
    with kc have "map_of m k = Some c" by simp
    with k show "c \<in> set (map (\<lambda>k. the (map_of m k)) ds)" by force
  qed
qed

text \<open>
  C2. For every weight matrix whose entries lie inside it and whose \<open>ncol + nrow\<close> is an
  \<^verbatim>\<open>unsigned int\<close>, the construction returns; two transcripts get the same component
  label if and only if a path of entries links them; the same holds for any two nodes;
  and the labels in use are exactly \<open>0..num_components-1\<close>.
\<close>

theorem find_components_connected:
  assumes wf: "\<forall>(i, j, w) \<in> set (entries W). i < nrow W \<and> j < ncol W"
    and sz: "ncol W + nrow W < 2 ^ 32"
  shows "\<exists>C. find_components W = Some C
     \<and> length (transcript_component C) = nrow W
     \<and> (\<forall>t1<nrow W. \<forall>t2<nrow W.
          transcript_component C ! t1 = transcript_component C ! t2
            \<longleftrightarrow> (ncol W + t1, ncol W + t2) \<in> linked W)
     \<and> (\<forall>t<nrow W. transcript_component C ! t < num_components C)
     \<and> length (ds_labels C) = ncol W + nrow W
     \<and> (\<forall>x<ncol W + nrow W. \<forall>y<ncol W + nrow W.
          ds_labels C ! x = ds_labels C ! y \<longleftrightarrow> (x, y) \<in> linked W)
     \<and> set (ds_labels C) = {..<num_components C}"
proof -
  let ?N = "ncol W + nrow W"
  have uN: "u32 ?N = ?N"
    using sz by (simp add: u32_def)
  have inb: "\<forall>(i, j, w) \<in> set (entries W). ncol W + i < ?N \<and> j < ?N"
    using wf by auto
  from unions_tracks[OF tracks_init inb] sz obtain ds1 where
    d1: "unions (ncol W) (entries W) [0 ..< ?N] = Some ds1" "tracks ?N ds1 (edges W)"
    by (auto simp: edges_def)
  from d1(2) have f1: "forest ds1" and l1: "length ds1 = ?N"
    and s1: "\<And>x y. same_set ds1 x y \<longleftrightarrow> x < ?N \<and> y < ?N \<and> (x, y) \<in> linked W"
    by (simp_all add: tracks_def linked_def)
  have "set [0 ..< ?N] \<subseteq> {..<length ds1}" by (auto simp: l1)
  from find_all_flat[OF f1 this] obtain ds2 where
    d2: "find_all [0 ..< ?N] ds1 = Some ds2" "length ds2 = ?N" "forest ds2"
      "\<And>j r. root_of ds2 j r \<longleftrightarrow> root_of ds1 j r"
      "\<And>k. k < ?N \<Longrightarrow> flat ds2 k"
    by (auto simp: l1)
  have s2: "ds2 ! x = ds2 ! y \<longleftrightarrow> (x, y) \<in> linked W" if "x < ?N" "y < ?N" for x y
  proof -
    have "ds2 ! x = ds2 ! y \<longleftrightarrow> same_set ds2 x y"
      using flat_same_set[OF d2(3), of x y] d2(2,5) that by simp
    also have "\<dots> \<longleftrightarrow> same_set ds1 x y"
      by (simp add: same_set_def d2(4))
    finally show ?thesis using that by (simp add: s1)
  qed
  let ?m = "fold (\<lambda>i. label_step (ds2 ! i)) [0 ..< ?N] []"
  have "?m = fold label_step (map ((!) ds2) [0 ..< length ds2]) []"
    by (simp add: fold_map comp_def d2(2))
  then have m: "?m = fold label_step ds2 []"
    by (simp add: map_nth)
  have "labelling []" by (simp add: labelling_def)
  from label_fold_labelling[OF this, of ds2] have lab: "labelling ?m" and keys: "fst ` set ?m = set ds2"
    by (simp_all add: m)
  note L = labels_of_roots[OF lab keys]
  let ?ds = "map (\<lambda>k. the (map_of ?m k)) ds2"
  let ?C = "\<lparr>ds_labels = ?ds, num_components = length ?m,
             transcript_component = map (\<lambda>i. ?ds ! (ncol W + i)) [0 ..< nrow W]\<rparr>"
  have run: "find_components W = Some ?C"
    by (simp add: find_components_def uN d1(1) d2(1) L(1) Let_def)
  have lbl: "?ds ! x = ?ds ! y \<longleftrightarrow> (x, y) \<in> linked W" if "x < ?N" "y < ?N" for x y
    using L(2)[of x y] s2[OF that] that by (simp add: d2(2))
  have tc: "transcript_component ?C ! t = ?ds ! (ncol W + t)" if "t < nrow W" for t
    using that by simp
  have "length (transcript_component ?C) = nrow W" by simp
  moreover have "\<forall>t1<nrow W. \<forall>t2<nrow W.
          transcript_component ?C ! t1 = transcript_component ?C ! t2
            \<longleftrightarrow> (ncol W + t1, ncol W + t2) \<in> linked W"
    using tc lbl by simp
  moreover have "\<forall>t<nrow W. transcript_component ?C ! t < num_components ?C"
  proof (intro allI impI)
    fix t assume t: "t < nrow W"
    then have "?ds ! (ncol W + t) \<in> set ?ds"
      by (intro nth_mem) (simp add: d2(2))
    with L(3) tc[OF t] show "transcript_component ?C ! t < num_components ?C"
      by simp
  qed
  moreover have "length (ds_labels ?C) = ?N" by (simp add: d2(2))
  moreover have "\<forall>x<?N. \<forall>y<?N. ds_labels ?C ! x = ds_labels ?C ! y \<longleftrightarrow> (x, y) \<in> linked W"
    using lbl by simp
  moreover have "set (ds_labels ?C) = {..<num_components ?C}"
    using L(3) by simp
  ultimately show ?thesis
    using run by blast
qed

text \<open>
  Three transcripts: the first two share fragment 1, the third has no fragment.
\<close>

definition W_example :: "real WeightMatrix" where
  "W_example =
     \<lparr>nrow = 3, ncol = 3, rowlens = [2, 2, 0], reserved = [2, 2, 0],
      rows = [[1, 1], [1, 1], []], idxs = [[0, 1], [1, 2], []], compacted = True\<rparr>"

lemma entries_W_example: "entries W_example = [(0, 0, 1), (0, 1, 1), (1, 1, 1), (1, 2, 1)]"
  by (simp add: entries_eq W_example_def row_entries_def upt_rec)

lemma find_components_W_example:
  "find_components W_example
     = Some \<lparr>ds_labels = [0, 0, 0, 0, 0, 1], num_components = 2,
             transcript_component = [0, 0, 1]\<rparr>"
  unfolding find_components_def entries_W_example
  by (simp add: W_example_def u32_def upt_rec disjset_union_def disjset_find.simps
      label_step_def split del: if_split)

theorem find_components_connected_witness:
  "list_all (\<lambda>(i, j, w). i < nrow W_example \<and> j < ncol W_example) (entries W_example)
   \<and> ncol W_example + nrow W_example < 2 ^ 32
   \<and> find_components W_example
       = Some \<lparr>ds_labels = [0, 0, 0, 0, 0, 1], num_components = 2,
               transcript_component = [0, 0, 1]\<rparr>
   \<and> (ncol W_example + 0, ncol W_example + 1) \<in> linked W_example
   \<and> (ncol W_example + 0, ncol W_example + 2) \<notin> linked W_example"
proof -
  have h1: "\<forall>(i, j, w) \<in> set (entries W_example). i < nrow W_example \<and> j < ncol W_example"
    by (simp add: entries_W_example) (simp add: W_example_def)
  have h2: "ncol W_example + nrow W_example < 2 ^ 32"
    by (simp add: W_example_def)
  have n: "nrow W_example = 3"
    by (simp add: W_example_def)
  from find_components_connected[OF h1 h2] obtain C where
    C: "find_components W_example = Some C"
      "\<forall>t1<nrow W_example. \<forall>t2<nrow W_example.
          transcript_component C ! t1 = transcript_component C ! t2
            \<longleftrightarrow> (ncol W_example + t1, ncol W_example + t2) \<in> linked W_example"
    by blast
  from C(1) have tc: "transcript_component C = [0, 0, 1]"
    by (auto simp: find_components_W_example)
  from C(2) have "transcript_component C ! 0 = transcript_component C ! 1
      \<longleftrightarrow> (ncol W_example + 0, ncol W_example + 1) \<in> linked W_example"
    by (simp add: n)
  moreover from C(2) have "transcript_component C ! 0 = transcript_component C ! 2
      \<longleftrightarrow> (ncol W_example + 0, ncol W_example + 2) \<in> linked W_example"
    by (simp add: n)
  ultimately show ?thesis
    using h1 h2 find_components_W_example by (simp add: tc list_all_iff)
qed


section \<open>Initialising a locus: \<^verbatim>\<open>SamplerInitThread::process_locus\<close>\<close>

text \<open>
  A read of the locus' read set: its name and its alignments in the order of
  \<^verbatim>\<open>AlignedReadIterator\<close>. \<open>'a\<close> is the type of an alignment pair, ordered as the keys of
  the \<^verbatim>\<open>std::map\<close> are.
\<close>

record 'a AlignedRead =
  name :: string
  alignments :: "'a list"

text \<open>
  What the thread reads from its collaborators: the id of a transcript, \<^verbatim>\<open>AlnIndex::get\<close>
  of the blacklist and of the multiread index (negative for a name that is absent),
  \<^verbatim>\<open>AlignmentPair::frag_len\<close>, the weight of a fragment under a transcript and the weight
  of a transcript (both computed from the fragment model and the bias vectors of the
  transcript), and the two constants.
\<close>

record ('t, 'a, 'w) init_env =
  transcript_id :: "'t \<Rightarrow> nat"
  blacklist_get :: "string \<Rightarrow> int"
  multireads_get :: "string \<Rightarrow> int"
  frag_len :: "'a \<Rightarrow> 't \<Rightarrow> int"
  fragment_weight :: "'t \<Rightarrow> 'a \<Rightarrow> 'w"
  transcript_weight :: "'t \<Rightarrow> 'w"
  min_transcript_weight :: 'w
  min_frag_weight :: 'w

text \<open>
  What the threads share: the weight matrix, the two thread-safe vectors, the transcript
  weights and the \<^verbatim>\<open>Indexer\<close> that serves fragment indices.
\<close>

record 'w init_shared =
  weight_matrix :: "'w WeightMatrix"
  frag_counts :: "(nat \<times> nat) list"
  multiread_frags :: "(nat \<times> nat) list"
  transcript_weights :: "'w list"
  read_indexer :: nat

record 'w MultireadEntry =
  multiread_num :: nat
  transcript_idx :: nat
  frag_weight :: 'w
  align_pr :: 'w

text \<open>
  \<^verbatim>\<open>MultireadEntry::operator <\<close> and the sort by it. \<^verbatim>\<open>std::sort\<close> leaves the order of
  equivalent entries open; here they keep their order: an entry is inserted in front of
  the entries after it that are not less than it.
\<close>

definition entry_less :: "'w MultireadEntry \<Rightarrow> 'w MultireadEntry \<Rightarrow> bool" where
  "entry_less x y =
     (if multiread_num x \<noteq> multiread_num y then multiread_num x < multiread_num y
      else transcript_idx x < transcript_idx y)"

fun insert_entry :: "'w MultireadEntry \<Rightarrow> 'w MultireadEntry list \<Rightarrow> 'w MultireadEntry list" where
  "insert_entry x [] = [x]"
| "insert_entry x (y # ys) = (if entry_less y x then y # insert_entry x ys else x # y # ys)"

definition sort_entries :: "'w MultireadEntry list \<Rightarrow> 'w MultireadEntry list" where
  "sort_entries es = foldr insert_entry es []"

text \<open>
  The first loop collapses identical reads. A multiread is skipped: the statement that
  would insert it into \<^verbatim>\<open>multiread_set\<close> is compiled out,
  \<^verbatim>\<open>if (multiread_num >= 0) {
  #if 0
      multiread_set.insert(std::make_pair((unsigned int) multiread_num, r->second));
  #endif
      continue;
  }\<close>
  The state of the loop is the map \<^verbatim>\<open>frag_idx\<close> (in key order), the excluded fragments and
  the next index of the indexer.
\<close>

type_synonym 'a Frags = "('a \<times> nat \<times> nat) list"

fun collect ::
  "('t, 'a::linorder, 'w) init_env \<Rightarrow> 't list \<Rightarrow> 'a AlignedRead list \<Rightarrow>
   'a Frags \<times> 'a list \<times> nat \<Rightarrow> 'a Frags \<times> 'a list \<times> nat"
where
  "collect E ts [] st = st"
| "collect E ts (r # rs) (frag_idx, excluded_frags, next) =
     (if blacklist_get E (name r) \<ge> 0 then collect E ts rs (frag_idx, excluded_frags, next)
      else if multireads_get E (name r) \<ge> 0 then collect E ts rs (frag_idx, excluded_frags, next)
      else
        (case alignments r of
           [] \<Rightarrow> collect E ts rs (frag_idx, excluded_frags, next)
         | a # _ \<Rightarrow>
             if a \<in> set excluded_frags then collect E ts rs (frag_idx, excluded_frags, next)
             else
               (case map_of frag_idx a of
                  Some (idx, cnt) \<Rightarrow>
                    collect E ts rs
                      (map (\<lambda>f. if fst f = a then (a, idx, u32 (cnt + 1)) else f) frag_idx,
                       excluded_frags, next)
                | None \<Rightarrow>
                    if list_ex (\<lambda>t. frag_len E a t \<ge> 0) ts
                    then collect E ts rs
                           (insort_key fst (a, next, 1) frag_idx, excluded_frags, u32 (next + 1))
                    else collect E ts rs (frag_idx, a # excluded_frags, next))))"

definition push_weight ::
  "'w init_shared \<Rightarrow> nat \<Rightarrow> nat \<Rightarrow> 'w \<Rightarrow> 'w init_shared option" where
  "push_weight S i j w =
     do { W \<leftarrow> push (weight_matrix S) i j w; Some (S\<lparr>weight_matrix := W\<rparr>) }"

text \<open>
  The loop over the transcripts of the locus: the transcript weight, the weights of the
  alignments of the multireads in \<^verbatim>\<open>multiread_set\<close>, and the weights of the fragments,
  which are pushed into the weight matrix.
\<close>

definition multiread_weights ::
  "('t, 'a, 'w::{ord,one}) init_env \<Rightarrow> 't \<Rightarrow> (nat \<times> 'a AlignedRead) list \<Rightarrow>
   'w MultireadEntry list"
where
  "multiread_weights E t multiread_set =
     concat (map (\<lambda>r. concat (map (\<lambda>a.
        if fragment_weight E t a > min_frag_weight E
        then [\<lparr>multiread_num = fst r, transcript_idx = transcript_id E t,
               frag_weight = fragment_weight E t a, align_pr = 1\<rparr>]
        else []) (alignments (snd r)))) multiread_set)"

fun push_frags ::
  "('t, 'a, 'w::{ord,inverse}) init_env \<Rightarrow> 't \<Rightarrow> 'a Frags \<Rightarrow> 'w init_shared \<Rightarrow> 'w init_shared option"
where
  "push_frags E t [] S = Some S"
| "push_frags E t (f # fs) S =
     (if fragment_weight E t (fst f) > min_frag_weight E
      then do {
        S' \<leftarrow> push_weight S (transcript_id E t) (fst (snd f))
                (fragment_weight E t (fst f) / (transcript_weights S ! transcript_id E t));
        push_frags E t fs S'
      }
      else push_frags E t fs S)"

fun per_transcript ::
  "('t, 'a, 'w::{ord,inverse,one}) init_env \<Rightarrow> (nat \<times> 'a AlignedRead) list \<Rightarrow> 'a Frags \<Rightarrow> 't list \<Rightarrow>
   'w MultireadEntry list \<times> 'w init_shared \<Rightarrow> ('w MultireadEntry list \<times> 'w init_shared) option"
where
  "per_transcript E multiread_set frag_idx [] st = Some st"
| "per_transcript E multiread_set frag_idx (t # ts) (multiread_entries, S) =
     (if transcript_id E t < length (transcript_weights S) then
        do {
          let tw = (if min_transcript_weight E < transcript_weight E t
                    then transcript_weight E t else min_transcript_weight E);
          let S = S\<lparr>transcript_weights := (transcript_weights S)[transcript_id E t := tw]\<rparr>;
          let multiread_entries = multiread_entries @ multiread_weights E t multiread_set;
          S \<leftarrow> push_frags E t frag_idx S;
          per_transcript E multiread_set frag_idx ts (multiread_entries, S)
        }
      else None)"

text \<open>
  The sorted multiread entries are processed in groups of one multiread: a group whose
  weights sum to 0 is dropped; otherwise a fragment index is taken from the indexer, the
  pair (multiread, fragment index) is appended to \<^verbatim>\<open>multiread_frags\<close>, and the weights
  of the alignments on the same transcript are added up and pushed.
\<close>

fun sum_group ::
  "('t, 'a, 'w::{ord,zero,plus,times}) init_env \<Rightarrow> nat \<Rightarrow> 'w MultireadEntry list \<Rightarrow>
   'w MultireadEntry \<times> 'w \<times> 'w init_shared \<Rightarrow> ('w MultireadEntry \<times> 'w \<times> 'w init_shared) option"
where
  "sum_group E frag_idx [] st = Some st"
| "sum_group E frag_idx (j # js) (j0, w, S) =
     (if transcript_idx j \<noteq> transcript_idx j0 then
        do {
          S \<leftarrow> (if w > min_frag_weight E then push_weight S (transcript_idx j0) frag_idx w
                 else Some S);
          sum_group E frag_idx js (j, 0 + align_pr j * frag_weight j, S)
        }
      else sum_group E frag_idx js (j0, w + align_pr j * frag_weight j, S))"

function aggregate ::
  "('t, 'a, 'w::{ord,zero,plus,times}) init_env \<Rightarrow> 'w MultireadEntry list \<Rightarrow> 'w init_shared \<Rightarrow>
   'w init_shared option"
where
  "aggregate E [] S = Some S"
| "aggregate E (i # es) S =
     (let grp = i # takeWhile (\<lambda>k. multiread_num i = multiread_num k) es;
          rest = dropWhile (\<lambda>k. multiread_num i = multiread_num k) es;
          sum_weight = fold (\<lambda>j s. s + frag_weight j * align_pr j) grp 0
      in if sum_weight = 0 then aggregate E rest S
         else do {
           let frag_idx = read_indexer S;
           let S = S\<lparr>read_indexer := u32 (frag_idx + 1),
                     multiread_frags := multiread_frags S @ [(multiread_num i, frag_idx)]\<rparr>;
           (j0, w, S) \<leftarrow> sum_group E frag_idx grp (i, 0, S);
           S \<leftarrow> (if w > min_frag_weight E then push_weight S (transcript_idx j0) frag_idx w
                  else Some S);
           aggregate E rest S
         })"
  by pat_completeness auto
termination
  by (relation "measure (\<lambda>(E, es, S). length es)")
    (auto simp: less_Suc_eq_le length_dropWhile_le)

text \<open>
  \<^verbatim>\<open>process_locus\<close>. \<^verbatim>\<open>multiread_set\<close> is declared empty and nothing inserts into it.
\<close>

definition process_locus ::
  "('t, 'a::linorder, 'w::{ord,zero,one,plus,times,inverse}) init_env \<Rightarrow> 't list \<Rightarrow>
   'a AlignedRead list \<Rightarrow> 'w init_shared \<Rightarrow> 'w init_shared option"
where
  "process_locus E ts rs S =
     (let multiread_set = [];
          (frag_idx, excluded_frags, next) = collect E ts rs ([], [], read_indexer S);
          S = S\<lparr>read_indexer := next,
                frag_counts := frag_counts S @ filter (\<lambda>f. snd f > 1) (map snd frag_idx)\<rparr>
      in do {
        (multiread_entries, S) \<leftarrow> per_transcript E multiread_set frag_idx ts ([], S);
        aggregate E (sort_entries multiread_entries) S
      })"


lemma collect_skips_multireads:
  "collect E ts (filter (\<lambda>r. multireads_get E (name r) < 0) rs) st = collect E ts rs st"
proof (induction rs arbitrary: st)
  case Nil
  show ?case by simp
next
  case (Cons r rs)
  obtain fi ex nx where st: "st = (fi, ex, nx)"
    by (cases st) auto
  show ?case
    unfolding st by (simp add: Cons.IH split: list.splits option.splits)
qed

lemma push_weight_multiread_frags:
  "push_weight S i j w = Some S' \<Longrightarrow> multiread_frags S' = multiread_frags S"
  by (auto simp: push_weight_def split: bind_splits)

lemma push_frags_multiread_frags:
  "push_frags E t fs S = Some S' \<Longrightarrow> multiread_frags S' = multiread_frags S"
proof (induction fs arbitrary: S)
  case Nil
  then show ?case by simp
next
  case (Cons f fs)
  then show ?case
    by (auto split: if_splits bind_splits dest!: push_weight_multiread_frags)
qed

lemma per_transcript_no_multireads:
  "per_transcript E [] fi ts (es, S) = Some (es', S') \<Longrightarrow>
     es' = es \<and> multiread_frags S' = multiread_frags S"
proof (induction ts arbitrary: es S)
  case Nil
  then show ?case by simp
next
  case (Cons t ts)
  from Cons.prems obtain S1 where
    a: "push_frags E t fi (S\<lparr>transcript_weights := (transcript_weights S)
          [transcript_id E t := (if min_transcript_weight E < transcript_weight E t
             then transcript_weight E t else min_transcript_weight E)]\<rparr>) = Some S1"
    and b: "per_transcript E [] fi ts (es, S1) = Some (es', S')"
    by (auto simp: multiread_weights_def Let_def split: if_splits bind_splits)
  from push_frags_multiread_frags[OF a] Cons.IH[OF b] show ?case
    by simp
qed

text \<open>
  C7, amended. \<^verbatim>\<open>process_locus\<close> skips every multiread: removing the multireads from the
  read set of the locus changes nothing in what it does, and it never extends the
  multiread table.
\<close>

theorem process_locus_ignores_multireads:
  "process_locus E ts (filter (\<lambda>r. multireads_get E (name r) < 0) rs) S = process_locus E ts rs S
   \<and> (process_locus E ts rs S = Some S' \<longrightarrow> multiread_frags S' = multiread_frags S)"
proof -
  have "process_locus E ts (filter (\<lambda>r. multireads_get E (name r) < 0) rs) S
      = process_locus E ts rs S"
    by (simp add: process_locus_def collect_skips_multireads)
  moreover have "multiread_frags S' = multiread_frags S" if "process_locus E ts rs S = Some S'"
  proof -
    obtain fi ex nx where c: "collect E ts rs ([], [], read_indexer S) = (fi, ex, nx)"
      by (cases "collect E ts rs ([], [], read_indexer S)") auto
    let ?S1 = "S\<lparr>read_indexer := nx,
                frag_counts := frag_counts S @ filter (\<lambda>f. snd f > 1) (map snd fi)\<rparr>"
    from that obtain es S2 where
      p: "per_transcript E [] fi ts ([], ?S1) = Some (es, S2)"
      and a: "aggregate E (sort_entries es) S2 = Some S'"
      by (auto simp: process_locus_def c Let_def split: bind_splits)
    from per_transcript_no_multireads[OF p] have "es = []" "multiread_frags S2 = multiread_frags S"
      by simp_all
    with a show ?thesis
      by (simp add: sort_entries_def)
  qed
  ultimately show ?thesis by blast
qed

text \<open>
  A locus with one transcript, on which every alignment has the weight 6, and three
  reads: a multiread with two alignments and two reads with the same single alignment.
\<close>

definition env_example :: "(nat, nat, real) init_env" where
  "env_example =
     \<lparr>transcript_id = (\<lambda>t. t), blacklist_get = (\<lambda>n. - 1),
      multireads_get = (\<lambda>n. if n = ''multi'' then 0 else - 1),
      frag_len = (\<lambda>a t. 100), fragment_weight = (\<lambda>t a. 6), transcript_weight = (\<lambda>t. 3),
      min_transcript_weight = 1, min_frag_weight = 0\<rparr>"

definition shared_example :: "real init_shared" where
  "shared_example =
     \<lparr>weight_matrix = new_WeightMatrix 1, frag_counts = [], multiread_frags = [],
      transcript_weights = [0], read_indexer = 0\<rparr>"

text \<open>
  C7, as stated, fails: for a locus whose only read is a multiread with two alignments
  of weight 6 on the transcript, the claim requires one fresh fragment index, the entry
  (transcript 0, that index, 12) in the weight matrix and the pair (multiread 0, index)
  in the multiread table. \<^verbatim>\<open>process_locus\<close> takes no index, pushes nothing and leaves the
  table empty.
\<close>

theorem process_locus_multiread_not_pushed:
  "process_locus env_example [0] [\<lparr>name = ''multi'', alignments = [7, 8]\<rparr>] shared_example
     = Some (shared_example\<lparr>transcript_weights := [3]\<rparr>)
   \<and> multiread_frags (shared_example\<lparr>transcript_weights := [3]\<rparr>) = []
   \<and> entries (weight_matrix (shared_example\<lparr>transcript_weights := [3]\<rparr>)) = []
   \<and> read_indexer (shared_example\<lparr>transcript_weights := [3]\<rparr>) = 0"
  by (simp add: process_locus_def env_example_def shared_example_def sort_entries_def
      multiread_weights_def entries_eq new_WeightMatrix_def row_entries_def)

theorem process_locus_ignores_multireads_witness:
  "process_locus env_example [0]
     [\<lparr>name = ''multi'', alignments = [7, 8]\<rparr>, \<lparr>name = ''uniq'', alignments = [7]\<rparr>,
      \<lparr>name = ''uniq2'', alignments = [7]\<rparr>] shared_example
     = Some \<lparr>weight_matrix =
               \<lparr>nrow = 1, ncol = 0, rowlens = [1], reserved = [1], rows = [[2]], idxs = [[0]],
                compacted = False\<rparr>,
             frag_counts = [(0, 2)], multiread_frags = [], transcript_weights = [3],
             read_indexer = 1\<rparr>
   \<and> process_locus env_example [0]
        [\<lparr>name = ''uniq'', alignments = [7]\<rparr>, \<lparr>name = ''uniq2'', alignments = [7]\<rparr>] shared_example
     = process_locus env_example [0]
        [\<lparr>name = ''multi'', alignments = [7, 8]\<rparr>, \<lparr>name = ''uniq'', alignments = [7]\<rparr>,
         \<lparr>name = ''uniq2'', alignments = [7]\<rparr>] shared_example"
proof -
  have run: "process_locus env_example [0]
     [\<lparr>name = ''multi'', alignments = [7, 8]\<rparr>, \<lparr>name = ''uniq'', alignments = [7]\<rparr>,
      \<lparr>name = ''uniq2'', alignments = [7]\<rparr>] shared_example
     = Some \<lparr>weight_matrix =
               \<lparr>nrow = 1, ncol = 0, rowlens = [1], reserved = [1], rows = [[2]], idxs = [[0]],
                compacted = False\<rparr>,
             frag_counts = [(0, 2)], multiread_frags = [], transcript_weights = [3],
             read_indexer = 1\<rparr>"
    by (simp add: process_locus_def env_example_def shared_example_def sort_entries_def
        multiread_weights_def new_WeightMatrix_def push_weight_def push_def put_def u32_def)
  show ?thesis
    using run
      process_locus_ignores_multireads[of env_example "[0]"
        "[\<lparr>name = ''multi'', alignments = [7, 8]\<rparr>, \<lparr>name = ''uniq'', alignments = [7]\<rparr>,
          \<lparr>name = ''uniq2'', alignments = [7]\<rparr>]" shared_example
        "\<lparr>weight_matrix =
               \<lparr>nrow = 1, ncol = 0, rowlens = [1], reserved = [1], rows = [[2]], idxs = [[0]],
                compacted = False\<rparr>,
             frag_counts = [(0, 2)], multiread_frags = [], transcript_weights = [3],
             read_indexer = 1\<rparr>"]
    by (simp add: env_example_def)
qed


section \<open>Alignment counts per read: \<^verbatim>\<open>AlnCountTrie\<close>\<close>

text \<open>
  The trie maps a read name to one \<^verbatim>\<open>unsigned long\<close> slot. Bits 0..15 of the slot count
  the alignments of mate 1, bits 16..31 those of mate 2.

  Modelled from the spec: \<^verbatim>\<open>hattrie_get\<close> and \<^verbatim>\<open>hattrie_tryget\<close> live in
  \<^verbatim>\<open>hat-trie/hat-trie.h\<close>, which is not among the sources. \<^verbatim>\<open>hattrie_tryget\<close> returns
  the slot of a key or \<^verbatim>\<open>NULL\<close>; \<^verbatim>\<open>hattrie_get\<close> returns the slot of a key and creates
  it, holding 0, when the key is new. The trie is therefore a partial map and the value
  read through \<^verbatim>\<open>hattrie_get\<close> is 0 for a new key.
\<close>

type_synonym hattrie = "string \<Rightarrow> 64 word option"

definition hattrie_create :: hattrie where
  "hattrie_create = (\<lambda>k. None)"

definition hattrie_tryget :: "hattrie \<Rightarrow> string \<Rightarrow> 64 word option" where
  "hattrie_tryget t k = t k"

definition hattrie_get :: "hattrie \<Rightarrow> string \<Rightarrow> 64 word" where
  "hattrie_get t k = (case t k of None \<Rightarrow> 0 | Some v \<Rightarrow> v)"

text \<open>
  \<^verbatim>\<open>unsigned long cnt = ((*val & 0xffff) + 1) & 0xffff;
  *val = (*val & 0xffff0000) | cnt;\<close>
\<close>

definition inc_mate1 :: "hattrie \<Rightarrow> string \<Rightarrow> hattrie" where
  "inc_mate1 t k =
     (let val = hattrie_get t k;
          cnt = ((val AND 0xffff) + 1) AND 0xffff
      in t(k \<mapsto> (val AND 0xffff0000) OR cnt))"

text \<open>
  \<^verbatim>\<open>unsigned long cnt = ((*val >> 16) + 1) & 0xffff;
  *val = (cnt << 16) | (*val & 0xffff);\<close>
\<close>

definition inc_mate2 :: "hattrie \<Rightarrow> string \<Rightarrow> hattrie" where
  "inc_mate2 t k =
     (let val = hattrie_get t k;
          cnt = ((drop_bit 16 val) + 1) AND 0xffff
      in t(k \<mapsto> (push_bit 16 cnt) OR (val AND 0xffff)))"

text \<open>
  \<^verbatim>\<open>MateCount\<close> is a pair of unsigned counts; both components are below \<open>2 ^ 16\<close>, so
  the conversion from the slot loses nothing.
\<close>

type_synonym MateCount = "32 word \<times> 32 word"

definition get :: "hattrie \<Rightarrow> string \<Rightarrow> MateCount" where
  "get t k =
     (case hattrie_tryget t k of
        None \<Rightarrow> (0, 0)
      | Some val \<Rightarrow> (ucast (val AND 0xffff), ucast ((drop_bit 16 val) AND 0xffff)))"

text \<open>A sequence of calls on one trie.\<close>

datatype call = Inc_mate1 string | Inc_mate2 string

fun apply_call :: "hattrie \<Rightarrow> call \<Rightarrow> hattrie" where
  "apply_call t (Inc_mate1 k) = inc_mate1 t k"
| "apply_call t (Inc_mate2 k) = inc_mate2 t k"

definition num_calls :: "call \<Rightarrow> call list \<Rightarrow> nat" where
  "num_calls c cs = length (filter (\<lambda>x. x = c) cs)"

text \<open>The two 16-bit fields of a slot, read as numbers.\<close>

definition lo_cnt :: "hattrie \<Rightarrow> string \<Rightarrow> nat" where
  "lo_cnt t k = unat (take_bit 16 (hattrie_get t k))"

definition hi_cnt :: "hattrie \<Rightarrow> string \<Rightarrow> nat" where
  "hi_cnt t k = unat (take_bit 16 (drop_bit 16 (hattrie_get t k)))"

subsection \<open>Bit-level facts\<close>

lemma and_ffff_take_bit: "(x::64 word) AND 0xffff = take_bit 16 x"
  by (simp add: take_bit_eq_mask mask_eq_exp_minus_1)

lemma unat_take_bit_16: "unat (take_bit 16 (x::64 word)) = unat x mod 65536"
proof -
  have "unat (take_bit 16 x) = take_bit 16 (unat x)"
    by (rule unsigned_take_bit_eq)
  also have "\<dots> = unat x mod 65536"
    by (simp add: take_bit_eq_mod)
  finally show ?thesis .
qed

lemma unat_plus_one: "unat ((x::64 word) + 1) = Suc (unat x) mod 18446744073709551616"
  by (simp add: unat_word_ariths)

lemma unat_take_bit_succ:
  "unat (take_bit 16 ((x::64 word) + 1)) = Suc (unat (take_bit 16 x)) mod 65536"
proof -
  have d: "(65536::nat) dvd 18446744073709551616"
    by simp
  have "unat (take_bit 16 (x + 1)) = (Suc (unat x) mod 18446744073709551616) mod 65536"
    by (simp only: unat_take_bit_16 unat_plus_one)
  also have "\<dots> = Suc (unat x) mod 65536"
    using d by (rule mod_mod_cancel)
  also have "\<dots> = Suc (unat x mod 65536) mod 65536"
    by (simp add: mod_Suc_eq)
  finally show ?thesis
    by (simp only: unat_take_bit_16)
qed

lemma take_bit_take_bit_succ:
  "take_bit 16 (take_bit 16 (x::64 word) + 1) = take_bit 16 (x + 1)"
proof -
  have "unat (take_bit 16 (take_bit 16 x + 1)) = unat (take_bit 16 (x + 1))"
    by (simp only: unat_take_bit_succ[of "take_bit 16 x"] unat_take_bit_succ[of x]
          take_bit_take_bit) simp
  then show ?thesis
    by (simp only: word_unat_eq_iff)
qed

lemma lo_after_inc_mate1:
  "((v::64 word) AND 0xffff0000 OR (((v AND 0xffff) + 1) AND 0xffff)) AND 0xffff
     = ((v AND 0xffff) + 1) AND 0xffff"
proof -
  have "(v AND 0xffff0000 OR (((v AND 0xffff) + 1) AND 0xffff)) AND 0xffff
      = (v AND (0xffff0000 AND 0xffff)) OR (((v AND 0xffff) + 1) AND 0xffff)"
    by (simp add: bit.conj_disj_distrib2 and.assoc)
  also have "\<dots> = ((v AND 0xffff) + 1) AND 0xffff"
    by simp
  finally show ?thesis .
qed

lemma hi_after_inc_mate1:
  "drop_bit 16 ((v::64 word) AND 0xffff0000 OR (((v AND 0xffff) + 1) AND 0xffff)) AND 0xffff
     = drop_bit 16 v AND 0xffff"
  by simp

lemma lo_after_inc_mate2:
  "(push_bit 16 (((drop_bit 16 (v::64 word)) + 1) AND 0xffff) OR (v AND 0xffff)) AND 0xffff
     = v AND 0xffff"
proof -
  have "push_bit 16 (((drop_bit 16 v) + 1) AND 0xffff) AND 0xffff = 0"
    by (rule bit_word_eqI) (auto simp add: bit_simps and_ffff_take_bit)
  then show ?thesis
    by (simp add: bit.conj_disj_distrib2 and.assoc)
qed

lemma hi_after_inc_mate2:
  "drop_bit 16 (push_bit 16 (((drop_bit 16 (v::64 word)) + 1) AND 0xffff) OR (v AND 0xffff))
     AND 0xffff = take_bit 16 (drop_bit 16 v + 1)"
proof -
  have "drop_bit 16 (v AND 0xffff) = 0"
    by (rule bit_word_eqI) (auto simp add: bit_simps and_ffff_take_bit)
  moreover have "drop_bit 16 (push_bit 16 (((drop_bit 16 v) + 1) AND 0xffff))
      = ((drop_bit 16 v) + 1) AND 0xffff"
    by (rule bit_word_eqI) (auto simp add: bit_simps and_ffff_take_bit)
  ultimately show ?thesis
    by (simp add: and_ffff_take_bit)
qed

subsection \<open>One call\<close>

lemma lo_cnt_inc_mate1:
  "lo_cnt (inc_mate1 t k) k' = (if k' = k then Suc (lo_cnt t k) mod 65536 else lo_cnt t k')"
  using lo_after_inc_mate1[of "hattrie_get t k"]
  by (simp add: lo_cnt_def inc_mate1_def Let_def hattrie_get_def and_ffff_take_bit
        take_bit_take_bit_succ unat_take_bit_succ)

lemma hi_cnt_inc_mate1: "hi_cnt (inc_mate1 t k) k' = hi_cnt t k'"
  using hi_after_inc_mate1[of "hattrie_get t k"]
  by (simp add: hi_cnt_def inc_mate1_def Let_def hattrie_get_def and_ffff_take_bit)

lemma lo_cnt_inc_mate2: "lo_cnt (inc_mate2 t k) k' = lo_cnt t k'"
  using lo_after_inc_mate2[of "hattrie_get t k"]
  by (simp add: lo_cnt_def inc_mate2_def Let_def hattrie_get_def and_ffff_take_bit)

lemma hi_cnt_inc_mate2:
  "hi_cnt (inc_mate2 t k) k' = (if k' = k then Suc (hi_cnt t k) mod 65536 else hi_cnt t k')"
  using hi_after_inc_mate2[of "hattrie_get t k"]
  by (simp add: hi_cnt_def inc_mate2_def Let_def hattrie_get_def and_ffff_take_bit
        unat_take_bit_succ)

lemma get_eq_cnt: "get t k = (word_of_nat (lo_cnt t k), word_of_nat (hi_cnt t k))"
  by (simp add: get_def hattrie_tryget_def lo_cnt_def hi_cnt_def hattrie_get_def
        and_ffff_take_bit split: option.splits)

subsection \<open>Any sequence of calls\<close>

lemma lo_cnt_foldl:
  "lo_cnt (foldl apply_call t cs) k = (lo_cnt t k + num_calls (Inc_mate1 k) cs) mod 65536"
proof (induction cs arbitrary: t)
  case Nil
  show ?case
    by (simp add: lo_cnt_def unat_take_bit_16 num_calls_def)
next
  case (Cons c cs)
  show ?case
    by (cases c)
      (simp_all add: Cons.IH lo_cnt_inc_mate1 lo_cnt_inc_mate2 num_calls_def
        mod_Suc_eq mod_add_left_eq)
qed

lemma hi_cnt_foldl:
  "hi_cnt (foldl apply_call t cs) k = (hi_cnt t k + num_calls (Inc_mate2 k) cs) mod 65536"
proof (induction cs arbitrary: t)
  case Nil
  show ?case
    by (simp add: hi_cnt_def unat_take_bit_16 num_calls_def)
next
  case (Cons c cs)
  show ?case
    by (cases c)
      (simp_all add: Cons.IH hi_cnt_inc_mate1 hi_cnt_inc_mate2 num_calls_def
        mod_Suc_eq mod_add_left_eq)
qed

text \<open>
  C10. After any sequence of \<^verbatim>\<open>inc_mate1\<close> and \<^verbatim>\<open>inc_mate2\<close> calls on a fresh trie,
  \<^verbatim>\<open>get(id)\<close> is the pair (number of \<^verbatim>\<open>inc_mate1(id)\<close> calls modulo \<open>2 ^ 16\<close>, number of
  \<^verbatim>\<open>inc_mate2(id)\<close> calls modulo \<open>2 ^ 16\<close>): each counter wraps at 65536. On any trie,
  incrementing one mate's counter leaves the other mate's counter of the same read
  unchanged, and a read that was never incremented has the counts (0, 0).
\<close>

theorem aln_count_trie_get:
  "get (foldl apply_call hattrie_create cs) k
     = (word_of_nat (num_calls (Inc_mate1 k) cs mod 2 ^ 16),
        word_of_nat (num_calls (Inc_mate2 k) cs mod 2 ^ 16))
   \<and> snd (get (inc_mate1 t k) k) = snd (get t k)
   \<and> fst (get (inc_mate2 t k) k) = fst (get t k)
   \<and> get hattrie_create k = (0, 0)"
proof -
  have z: "lo_cnt hattrie_create k = 0" "hi_cnt hattrie_create k = 0"
    by (simp_all add: lo_cnt_def hi_cnt_def hattrie_get_def hattrie_create_def)
  have "get (foldl apply_call hattrie_create cs) k
     = (word_of_nat (num_calls (Inc_mate1 k) cs mod 2 ^ 16),
        word_of_nat (num_calls (Inc_mate2 k) cs mod 2 ^ 16))"
    by (simp add: get_eq_cnt lo_cnt_foldl hi_cnt_foldl z)
  moreover have "snd (get (inc_mate1 t k) k) = snd (get t k)"
    by (simp add: get_eq_cnt hi_cnt_inc_mate1)
  moreover have "fst (get (inc_mate2 t k) k) = fst (get t k)"
    by (simp add: get_eq_cnt lo_cnt_inc_mate2)
  moreover have "get hattrie_create k = (0, 0)"
    by (simp add: get_def hattrie_tryget_def hattrie_create_def)
  ultimately show ?thesis
    by blast
qed


section \<open>Sequence bias of a transcript: \<^verbatim>\<open>SamplerInitThread::transcript_sequence_bias\<close>\<close>

text \<open>
  The bias model \<^verbatim>\<open>fm.sb\<close> is an external collaborator: it is taken as a record of the
  functions the code calls. \<^verbatim>\<open>'seq\<close> is the type of a transcript sequence and \<^verbatim>\<open>'f\<close> the
  type of a bias value, which this function only stores.
\<close>

record ('seq, 'f) seqbias =
  get_mate1_bias :: "'seq \<Rightarrow> nat \<Rightarrow> 'f"
  get_mate2_bias :: "'seq \<Rightarrow> nat \<Rightarrow> 'f"
  getL :: nat
  getR :: nat

text \<open>
  \<^verbatim>\<open>std::vector<float> mate1_seqbias[2], mate2_seqbias[2]\<close>: the temporary space of a
  thread, indexed by strand and then by position.
\<close>

record 'f bias_scratch =
  mate1_seqbias :: "'f list list"
  mate2_seqbias :: "'f list list"

definition new_bias_scratch :: "'f bias_scratch" where
  "new_bias_scratch = \<lparr>mate1_seqbias = [[], []], mate2_seqbias = [[], []]\<rparr>"

text \<open>\<^verbatim>\<open>std::vector::resize\<close>: new elements are value-initialised.\<close>

definition resize :: "nat \<Rightarrow> 'f::zero list \<Rightarrow> 'f list" where
  "resize n xs = take n xs @ replicate (n - length xs) 0"

text \<open>Reads and writes outside a vector are undefined behaviour: the result is \<open>None\<close>.\<close>

definition at2 :: "'f list list \<Rightarrow> nat \<Rightarrow> 'f list option" where
  "at2 xss s = (if s < length xss then Some (xss ! s) else None)"

definition fill_prefix :: "'f list list \<Rightarrow> nat \<Rightarrow> nat \<Rightarrow> 'f \<Rightarrow> 'f list list option" where
  "fill_prefix xss s n v =
     (if s < length xss \<and> n \<le> length (xss ! s)
      then Some (xss[s := replicate n v @ drop n (xss ! s)]) else None)"

definition reverse_prefix :: "'f list list \<Rightarrow> nat \<Rightarrow> nat \<Rightarrow> 'f list list option" where
  "reverse_prefix xss s n =
     (if s < length xss \<and> n \<le> length (xss ! s)
      then Some (xss[s := rev (take n (xss ! s)) @ drop n (xss ! s)]) else None)"

definition store :: "'f list list \<Rightarrow> nat \<Rightarrow> nat \<Rightarrow> 'f \<Rightarrow> 'f list list option" where
  "store xss s pos v =
     (if s < length xss \<and> pos < length (xss ! s)
      then Some (xss[s := (xss ! s)[pos := v]]) else None)"

text \<open>
  The loop over the positions. All four assignments of the source have
  \<^verbatim>\<open>mate1_seqbias\<close> on their left-hand side:
  \<^verbatim>\<open>mate1_seqbias[0][pos] = fm.sb->get_mate1_bias(tseq0, pos + fm.sb->getL());
  mate1_seqbias[1][pos] = fm.sb->get_mate1_bias(tseq1, pos + fm.sb->getL());
  mate1_seqbias[0][pos] = fm.sb->get_mate2_bias(tseq0, pos + fm.sb->getL());
  mate1_seqbias[1][pos] = fm.sb->get_mate2_bias(tseq1, pos + fm.sb->getL());\<close>
\<close>

fun bias_loop ::
  "('seq, 'f) seqbias \<Rightarrow> 'seq \<Rightarrow> 'seq \<Rightarrow> nat list \<Rightarrow> 'f bias_scratch \<Rightarrow> 'f bias_scratch option"
where
  "bias_loop sb tseq0 tseq1 [] st = Some st"
| "bias_loop sb tseq0 tseq1 (pos # ps) st =
     do {
       m \<leftarrow> store (mate1_seqbias st) 0 pos (get_mate1_bias sb tseq0 (pos + getL sb));
       m \<leftarrow> store m 1 pos (get_mate1_bias sb tseq1 (pos + getL sb));
       m \<leftarrow> store m 0 pos (get_mate2_bias sb tseq0 (pos + getL sb));
       m \<leftarrow> store m 1 pos (get_mate2_bias sb tseq1 (pos + getL sb));
       bias_loop sb tseq0 tseq1 ps (st\<lparr>mate1_seqbias := m\<rparr>)
     }"

text \<open>
  \<^verbatim>\<open>fm_sb\<close> and \<^verbatim>\<open>locus_seq\<close> are \<open>None\<close> for a \<^verbatim>\<open>NULL\<close> pointer. \<^verbatim>\<open>get_sequence\<close> stands
  for \<^verbatim>\<open>Transcript::get_sequence\<close> (the reference sequence, the left and the right
  padding) and \<^verbatim>\<open>revcomp\<close> for \<^verbatim>\<open>twobitseq::revcomp\<close>; \<^verbatim>\<open>tlen\<close> is the exonic length.
\<close>

definition transcript_sequence_bias ::
  "('seq, 'f::{zero,one}) seqbias option \<Rightarrow> 'g option \<Rightarrow> ('g \<Rightarrow> nat \<Rightarrow> nat \<Rightarrow> 'seq) \<Rightarrow>
   ('seq \<Rightarrow> 'seq) \<Rightarrow> nat \<Rightarrow> 'f bias_scratch \<Rightarrow> 'f bias_scratch option"
where
  "transcript_sequence_bias fm_sb locus_seq get_sequence revcomp tlen st0 =
     do {
       m10 \<leftarrow> at2 (mate1_seqbias st0) 0;
       let st = (if tlen > length m10
                 then \<lparr>mate1_seqbias = map (resize tlen) (mate1_seqbias st0),
                       mate2_seqbias = map (resize tlen) (mate2_seqbias st0)\<rparr>
                 else st0);
       case (fm_sb, locus_seq) of
         (Some sb, Some seq) \<Rightarrow>
           do {
             let tseq0 = get_sequence seq (getL sb) (getR sb);
             let tseq1 = revcomp (get_sequence seq (getR sb) (getL sb));
             st \<leftarrow> bias_loop sb tseq0 tseq1 [0..<tlen] st;
             m1 \<leftarrow> reverse_prefix (mate1_seqbias st) 1 tlen;
             m2 \<leftarrow> reverse_prefix (mate2_seqbias st) 1 tlen;
             Some \<lparr>mate1_seqbias = m1, mate2_seqbias = m2\<rparr>
           }
       | _ \<Rightarrow>
           do {
             m1 \<leftarrow> fill_prefix (mate1_seqbias st) 0 tlen 1;
             m1 \<leftarrow> fill_prefix m1 1 tlen 1;
             m2 \<leftarrow> fill_prefix (mate2_seqbias st) 0 tlen 1;
             m2 \<leftarrow> fill_prefix m2 1 tlen 1;
             Some \<lparr>mate1_seqbias = m1, mate2_seqbias = m2\<rparr>
           }
     }"

text \<open>
  A bias model that tells the mates, the strands and the positions apart: on the
  sequence \<open>s\<close> (0 for the forward, 1 for the reverse-complemented transcript) at
  position \<open>p\<close> the bias of mate 1 is \<open>100 * s + 10 + p\<close> and that of mate 2 is
  \<open>100 * s + 20 + p\<close>.
\<close>

definition sb_example :: "(nat, int) seqbias" where
  "sb_example =
     \<lparr>get_mate1_bias = (\<lambda>s p. 100 * int s + 10 + int p),
      get_mate2_bias = (\<lambda>s p. 100 * int s + 20 + int p),
      getL = 0, getR = 0\<rparr>"

lemma bias_loop_mate2_unchanged:
  "bias_loop sb tseq0 tseq1 ps st = Some st' \<Longrightarrow> mate2_seqbias st' = mate2_seqbias st"
proof (induction ps arbitrary: st)
  case Nil
  then show ?case by simp
next
  case (Cons p ps)
  from Cons.prems obtain m where "bias_loop sb tseq0 tseq1 ps (st\<lparr>mate1_seqbias := m\<rparr>) = Some st'"
    by (auto split: bind_splits)
  from Cons.IH[OF this] show ?case by simp
qed

text \<open>
  C8. The claim is that after \<^verbatim>\<open>transcript_sequence_bias\<close> the vector
  \<^verbatim>\<open>mate1_seqbias[strand]\<close> holds the bias of mate 1 and \<^verbatim>\<open>mate2_seqbias[strand]\<close> that of
  mate 2 at every position. The code stores the bias of mate 2 in \<^verbatim>\<open>mate1_seqbias\<close>
  and never writes \<^verbatim>\<open>mate2_seqbias\<close>: for a transcript of exonic length 2 and fresh
  temporary space, \<^verbatim>\<open>mate1_seqbias[0]\<close> is \<open>[20, 21]\<close> (the biases of mate 2, where the
  claim has \<open>[10, 11]\<close>) and \<^verbatim>\<open>mate2_seqbias[0]\<close> is \<open>[0, 0]\<close> (the freshly resized vector,
  where the claim has \<open>[20, 21]\<close>).
\<close>

theorem transcript_sequence_bias_mate2_into_mate1:
  "transcript_sequence_bias (Some sb_example) (Some ()) (\<lambda>seq l r. 0) (\<lambda>s. Suc s) 2
       new_bias_scratch
     = Some \<lparr>mate1_seqbias = [[20, 21], [121, 120]], mate2_seqbias = [[0, 0], [0, 0]]\<rparr>"
  by (simp add: transcript_sequence_bias_def sb_example_def new_bias_scratch_def at2_def
      resize_def store_def reverse_prefix_def upt_rec numeral_2_eq_2)

section \<open>Scanning the sorted alignment stream: \<^verbatim>\<open>sam_scan\<close>\<close>

text \<open>
  Of a BAM record the scan reads the flag \<^verbatim>\<open>BAM_FUNMAP\<close>, \<^verbatim>\<open>core.tid\<close> and \<^verbatim>\<open>core.pos\<close>
  (both \<^verbatim>\<open>int32_t\<close>; they are only compared). \<^verbatim>\<open>Logger::abort\<close> ends the process: an
  aborted scan is a value \<open>Inl\<close> that carries no state.
\<close>

record bam1 =
  unmapped :: bool
  tid :: int
  pos :: int

datatype abort = Unsorted | Unreadable_sequence int

record 's scan_state =
  last_tid :: int
  last_pos :: int
  work :: 's

definition scan_init :: "'s \<Rightarrow> 's scan_state" where
  "scan_init w = \<lparr>last_tid = - 1, last_pos = - 1, work = w\<rparr>"

definition skipped :: "bam1 \<Rightarrow> bool" where
  "skipped b = (unmapped b \<or> tid b < 0)"

definition out_of_order :: "'s scan_state \<Rightarrow> bam1 \<Rightarrow> bool" where
  "out_of_order st b = (tid b < last_tid st \<or> (tid b = last_tid st \<and> pos b < last_pos st))"

text \<open>
  The loop of \<^verbatim>\<open>sam_scan\<close> in \<^verbatim>\<open>fragment_model.cpp\<close>. After the sort check the loop body
  counts the alignment and adds the read to the intervals that contain it; none of this
  can abort, and it is the parameter \<^verbatim>\<open>process\<close> on the work state.
\<close>

fun fm_sam_scan :: "('s \<Rightarrow> bam1 \<Rightarrow> 's) \<Rightarrow> 's scan_state \<Rightarrow> bam1 list \<Rightarrow> abort + 's scan_state" where
  "fm_sam_scan process st [] = Inr st"
| "fm_sam_scan process st (b # bs) =
     (if skipped b then fm_sam_scan process st bs
      else if out_of_order st b then Inl Unsorted
      else fm_sam_scan process
             \<lparr>last_tid = tid b, last_pos = pos b, work = process (work st) b\<rparr> bs)"

text \<open>
  The loop of \<^verbatim>\<open>sam_scan\<close> in \<^verbatim>\<open>sampler.cpp\<close>. \<^verbatim>\<open>fa_f\<close> is \<open>None\<close> when no FASTA file
  is given; otherwise it holds \<^verbatim>\<open>faidx_fetch_seq\<close>, which yields \<open>None\<close> for \<^verbatim>\<open>NULL\<close>.
  When the reference changes, the sequence is fetched and handed to the intervals
  (\<^verbatim>\<open>set_seq\<close>); a sequence that cannot be read aborts the run.
\<close>

fun sam_scan ::
  "(int \<Rightarrow> 'q option) option \<Rightarrow> ('s \<Rightarrow> bam1 \<Rightarrow> 'q \<Rightarrow> 's) \<Rightarrow> ('s \<Rightarrow> bam1 \<Rightarrow> 's) \<Rightarrow>
   's scan_state \<Rightarrow> bam1 list \<Rightarrow> abort + 's scan_state"
where
  "sam_scan fa_f set_seq process st [] = Inr st"
| "sam_scan fa_f set_seq process st (b # bs) =
     (if skipped b then sam_scan fa_f set_seq process st bs
      else if out_of_order st b then Inl Unsorted
      else
        (case (if tid b \<noteq> last_tid st then fa_f else None) of
           None \<Rightarrow>
             sam_scan fa_f set_seq process
               \<lparr>last_tid = tid b, last_pos = pos b, work = process (work st) b\<rparr> bs
         | Some faidx_fetch_seq \<Rightarrow>
             (case faidx_fetch_seq (tid b) of
                None \<Rightarrow> Inl (Unreadable_sequence (tid b))
              | Some seqstr \<Rightarrow>
                  sam_scan fa_f set_seq process
                    \<lparr>last_tid = tid b, last_pos = pos b,
                      work = process (set_seq (work st) b seqstr) b\<rparr> bs)))"

subsection \<open>Sort order of the mapped reads\<close>

text \<open>
  The mapped reads are those the loop does not skip. The stream violates the sort order
  when some mapped read comes before its predecessor among the mapped reads, by
  reference id and then by position.
\<close>

definition mapped_reads :: "bam1 list \<Rightarrow> bam1 list" where
  "mapped_reads bs = filter (\<lambda>b. \<not> skipped b) bs"

definition descends :: "bam1 \<Rightarrow> bam1 \<Rightarrow> bool" where
  "descends a b = (tid b < tid a \<or> (tid b = tid a \<and> pos b < pos a))"

definition sort_violation :: "bam1 list \<Rightarrow> bool" where
  "sort_violation bs =
     (\<exists>i. Suc i < length (mapped_reads bs) \<and>
           descends (mapped_reads bs ! i) (mapped_reads bs ! Suc i))"

definition readable :: "(int \<Rightarrow> 'q option) option \<Rightarrow> bam1 list \<Rightarrow> bool" where
  "readable fa_f bs =
     (case fa_f of None \<Rightarrow> True
      | Some faidx_fetch_seq \<Rightarrow> list_all (\<lambda>b. faidx_fetch_seq (tid b) \<noteq> None) (mapped_reads bs))"

fun violates :: "int \<Rightarrow> int \<Rightarrow> bam1 list \<Rightarrow> bool" where
  "violates lt lp [] = False"
| "violates lt lp (b # bs) =
     ((tid b < lt \<or> (tid b = lt \<and> pos b < lp)) \<or> violates (tid b) (pos b) bs)"

lemma adjacent_Cons:
  "(\<exists>i. Suc i < length (b # bs) \<and> descends ((b # bs) ! i) ((b # bs) ! Suc i))
     \<longleftrightarrow> (bs \<noteq> [] \<and> descends b (hd bs)) \<or>
         (\<exists>i. Suc i < length bs \<and> descends (bs ! i) (bs ! Suc i))"
  (is "?L \<longleftrightarrow> ?A \<or> ?B")
proof
  assume ?L
  then obtain i where i: "Suc i < length (b # bs)" "descends ((b # bs) ! i) ((b # bs) ! Suc i)"
    by blast
  show "?A \<or> ?B"
  proof (cases i)
    case 0
    with i have "bs \<noteq> []" by auto
    with i 0 show ?thesis by (auto simp: hd_conv_nth)
  next
    case (Suc j)
    with i show ?thesis by auto
  qed
next
  assume "?A \<or> ?B"
  then show ?L
  proof
    assume ?A
    then have "Suc 0 < length (b # bs) \<and> descends ((b # bs) ! 0) ((b # bs) ! Suc 0)"
      by (auto simp: hd_conv_nth)
    then show ?L by blast
  next
    assume ?B
    then obtain i where "Suc i < length bs \<and> descends (bs ! i) (bs ! Suc i)"
      by blast
    then have "Suc (Suc i) < length (b # bs) \<and> descends ((b # bs) ! Suc i) ((b # bs) ! Suc (Suc i))"
      by simp
    then show ?L by blast
  qed
qed

lemma violates_iff:
  "violates lt lp ms \<longleftrightarrow>
     (ms \<noteq> [] \<and> (tid (hd ms) < lt \<or> (tid (hd ms) = lt \<and> pos (hd ms) < lp))) \<or>
     (\<exists>i. Suc i < length ms \<and> descends (ms ! i) (ms ! Suc i))"
proof (induction ms arbitrary: lt lp)
  case Nil
  show ?case by simp
next
  case (Cons b bs)
  show ?case
    unfolding adjacent_Cons violates.simps Cons.IH
    by (auto simp: descends_def)
qed

lemma violates_init:
  "violates (- 1) (- 1) (mapped_reads bs) \<longleftrightarrow> sort_violation bs"
proof -
  have "0 \<le> tid (hd (mapped_reads bs))" if "mapped_reads bs \<noteq> []"
  proof -
    from that have "hd (mapped_reads bs) \<in> set (mapped_reads bs)"
      by simp
    then have "\<not> skipped (hd (mapped_reads bs))"
      by (simp add: mapped_reads_def)
    then show ?thesis
      by (simp add: skipped_def)
  qed
  then show ?thesis
    unfolding violates_iff sort_violation_def by fastforce
qed

lemma fm_sam_scan_abort:
  "isl (fm_sam_scan process st bs) \<longleftrightarrow> violates (last_tid st) (last_pos st) (mapped_reads bs)"
  by (induction bs arbitrary: st) (auto simp: mapped_reads_def out_of_order_def)

lemma sam_scan_unsorted:
  "sam_scan fa_f set_seq process st bs = Inl Unsorted \<Longrightarrow>
     violates (last_tid st) (last_pos st) (mapped_reads bs)"
proof (induction bs arbitrary: st)
  case Nil
  then show ?case by simp
next
  case (Cons b bs)
  note ih = Cons.IH[of st] Cons.IH[of "\<lparr>last_tid = tid b, last_pos = pos b, work = w\<rparr>" for w]
  from Cons.prems show ?case
    using ih by (auto simp: mapped_reads_def out_of_order_def split: if_splits option.splits)
qed

lemma sam_scan_violates:
  "violates (last_tid st) (last_pos st) (mapped_reads bs) \<Longrightarrow>
     isl (sam_scan fa_f set_seq process st bs)"
proof (induction bs arbitrary: st)
  case Nil
  then show ?case by (simp add: mapped_reads_def)
next
  case (Cons b bs)
  note ih = Cons.IH[of st] Cons.IH[of "\<lparr>last_tid = tid b, last_pos = pos b, work = w\<rparr>" for w]
  from Cons.prems show ?case
    using ih by (auto simp: mapped_reads_def out_of_order_def split: if_splits option.splits)
qed

lemma sam_scan_readable:
  "readable fa_f bs \<Longrightarrow> isl (sam_scan fa_f set_seq process st bs) \<Longrightarrow>
     violates (last_tid st) (last_pos st) (mapped_reads bs)"
proof (induction bs arbitrary: st)
  case Nil
  then show ?case by simp
next
  case (Cons b bs)
  note ih = Cons.IH[of st] Cons.IH[of "\<lparr>last_tid = tid b, last_pos = pos b, work = w\<rparr>" for w]
  from Cons.prems show ?case
    using ih
    by (auto simp: mapped_reads_def out_of_order_def readable_def
        split: if_splits option.splits)
qed

lemma sam_scan_unreadable:
  assumes "last_tid st < 0 \<or> f (last_tid st) \<noteq> None"
    and "\<not> list_all (\<lambda>b. f (tid b) \<noteq> None) (mapped_reads bs)"
  shows "isl (sam_scan (Some f) set_seq process st bs)"
  using assms
proof (induction bs arbitrary: st)
  case Nil
  then show ?case by (simp add: mapped_reads_def)
next
  case (Cons b bs)
  show ?case
  proof (cases "skipped b")
    case True
    with Cons.prems(2) have "\<not> list_all (\<lambda>b. f (tid b) \<noteq> None) (mapped_reads bs)"
      by (simp add: mapped_reads_def)
    from Cons.IH[OF Cons.prems(1) this] True show ?thesis
      by simp
  next
    case False
    then have t: "0 \<le> tid b"
      by (simp add: skipped_def)
    show ?thesis
    proof (cases "out_of_order st b \<or> (tid b \<noteq> last_tid st \<and> f (tid b) = None)")
      case True
      with False show ?thesis
        by auto
    next
      case ok: False
      with t Cons.prems(1) have r: "f (tid b) \<noteq> None"
        by auto
      with Cons.prems(2) False have rest: "\<not> list_all (\<lambda>b. f (tid b) \<noteq> None) (mapped_reads bs)"
        by (simp add: mapped_reads_def)
      have "isl (sam_scan (Some f) set_seq process
              \<lparr>last_tid = tid b, last_pos = pos b, work = w\<rparr> bs)" for w
        using rest by (intro Cons.IH) (simp_all add: r)
      with False ok r show ?thesis
        by (auto split: option.splits)
    qed
  qed
qed

definition b_first :: bam1 where
  "b_first = \<lparr>unmapped = False, tid = 0, pos = 5\<rparr>"

definition b_unmapped :: bam1 where
  "b_unmapped = \<lparr>unmapped = True, tid = 0, pos = 0\<rparr>"

definition b_back :: bam1 where
  "b_back = \<lparr>unmapped = False, tid = 0, pos = 3\<rparr>"

text \<open>
  C9, as stated, fails for the scan of the sampler: a sorted stream whose reference
  sequence cannot be read aborts the run although no read violates the sort order.
\<close>

theorem sam_scan_abort_without_violation:
  "sam_scan (Some (\<lambda>t. None :: unit option)) (\<lambda>w b q. w) (\<lambda>w b. w) (scan_init ()) [b_first]
     = Inl (Unreadable_sequence 0)
   \<and> \<not> sort_violation [b_first]"
  by (simp add: scan_init_def b_first_def skipped_def out_of_order_def sort_violation_def
      mapped_reads_def)

text \<open>
  C9, amended. The scan of the fragment model aborts if and only if some mapped read
  violates the sort order. The scan of the sampler aborts with the sort error only if
  some mapped read violates the sort order, it aborts whenever one does, and when no
  FASTA file is given or every reference sequence of a mapped read can be read it
  aborts if and only if some mapped read violates the sort order. The scan of the
  sampler also aborts when the reference sequence of some mapped read cannot be read. A
  skipped (unmapped) read changes nothing, and an abort carries no state to resume from.
\<close>

theorem sam_scan_abort_iff:
  "(isl (fm_sam_scan process (scan_init w) bs) \<longleftrightarrow> sort_violation bs)
   \<and> (sam_scan fa_f set_seq process' (scan_init w) bs = Inl Unsorted \<longrightarrow> sort_violation bs)
   \<and> (sort_violation bs \<longrightarrow> isl (sam_scan fa_f set_seq process' (scan_init w) bs))
   \<and> (readable fa_f bs \<longrightarrow>
        (isl (sam_scan fa_f set_seq process' (scan_init w) bs) \<longleftrightarrow> sort_violation bs))
   \<and> (\<not> readable fa_f bs \<longrightarrow> isl (sam_scan fa_f set_seq process' (scan_init w) bs))
   \<and> (skipped b \<longrightarrow>
        fm_sam_scan process st (b # bs) = fm_sam_scan process st bs \<and>
        sam_scan fa_f set_seq process' st (b # bs) = sam_scan fa_f set_seq process' st bs)"
proof -
  have i: "last_tid (scan_init w) = - 1" "last_pos (scan_init w) = - 1"
    by (simp_all add: scan_init_def)
  have "isl (fm_sam_scan process (scan_init w) bs) \<longleftrightarrow> sort_violation bs"
    by (simp add: fm_sam_scan_abort i violates_init)
  moreover have "sam_scan fa_f set_seq process' (scan_init w) bs = Inl Unsorted
      \<longrightarrow> sort_violation bs"
    using sam_scan_unsorted[of fa_f set_seq process' "scan_init w" bs]
    by (simp add: i violates_init)
  moreover have v: "sort_violation bs \<longrightarrow> isl (sam_scan fa_f set_seq process' (scan_init w) bs)"
    using sam_scan_violates[of "scan_init w" bs fa_f set_seq process']
    by (simp add: i violates_init)
  moreover have "readable fa_f bs \<longrightarrow>
        (isl (sam_scan fa_f set_seq process' (scan_init w) bs) \<longleftrightarrow> sort_violation bs)"
    using sam_scan_readable[of fa_f bs set_seq process' "scan_init w"] v
    by (auto simp: i violates_init)
  moreover have "\<not> readable fa_f bs \<longrightarrow> isl (sam_scan fa_f set_seq process' (scan_init w) bs)"
  proof (cases fa_f)
    case None
    then show ?thesis by (simp add: readable_def)
  next
    case (Some f)
    have "last_tid (scan_init w) < 0 \<or> f (last_tid (scan_init w)) \<noteq> None"
      by (simp add: scan_init_def)
    from sam_scan_unreadable[of "scan_init w" f bs set_seq process', OF this] Some show ?thesis
      by (simp add: readable_def)
  qed
  moreover have "skipped b \<longrightarrow>
        fm_sam_scan process st (b # bs) = fm_sam_scan process st bs \<and>
        sam_scan fa_f set_seq process' st (b # bs) = sam_scan fa_f set_seq process' st bs"
    by simp
  ultimately show ?thesis
    by blast
qed

theorem sam_scan_abort_iff_witness:
  "sort_violation [b_first, b_unmapped, b_back]
   \<and> readable (None :: (int \<Rightarrow> unit option) option) [b_first, b_unmapped, b_back]
   \<and> skipped b_unmapped
   \<and> isl (fm_sam_scan (\<lambda>w b. w) (scan_init ()) [b_first, b_unmapped, b_back])
   \<and> isl (sam_scan (None :: (int \<Rightarrow> unit option) option) (\<lambda>w b q. w) (\<lambda>w b. w) (scan_init ())
        [b_first, b_unmapped, b_back])
   \<and> sam_scan (None :: (int \<Rightarrow> unit option) option) (\<lambda>w b q. w) (\<lambda>w b. w) (scan_init ())
        [b_unmapped, b_back]
       = sam_scan None (\<lambda>w b q. w) (\<lambda>w b. w) (scan_init ()) [b_back]
   \<and> \<not> readable (Some (\<lambda>t. None :: unit option)) [b_unmapped, b_first]
   \<and> isl (sam_scan (Some (\<lambda>t. None :: unit option)) (\<lambda>w b q. w) (\<lambda>w b. w) (scan_init ())
        [b_unmapped, b_first])"
proof -
  have v: "sort_violation [b_first, b_unmapped, b_back]"
  proof -
    have "Suc 0 < length (mapped_reads [b_first, b_unmapped, b_back]) \<and>
        descends (mapped_reads [b_first, b_unmapped, b_back] ! 0)
          (mapped_reads [b_first, b_unmapped, b_back] ! Suc 0)"
      by (simp add: mapped_reads_def skipped_def descends_def b_first_def b_unmapped_def
          b_back_def)
    then show ?thesis
      unfolding sort_violation_def by blast
  qed
  have r: "readable (None :: (int \<Rightarrow> unit option) option) [b_first, b_unmapped, b_back]"
    by (simp add: readable_def)
  have s: "skipped b_unmapped"
    by (simp add: skipped_def b_unmapped_def)
  have u: "\<not> readable (Some (\<lambda>t. None :: unit option)) [b_unmapped, b_first]"
    by (simp add: readable_def mapped_reads_def skipped_def b_unmapped_def b_first_def)
  show ?thesis
    using v r s u
      sam_scan_abort_iff[of "\<lambda>w b. w" "()" "[b_unmapped, b_first]"
        "Some (\<lambda>t. None :: unit option)" "\<lambda>w b q. w" "\<lambda>w b. w" b_unmapped
        "scan_init ()"]
      sam_scan_abort_iff[of "\<lambda>w b. w" "()" "[b_first, b_unmapped, b_back]"
        "None :: (int \<Rightarrow> unit option) option" "\<lambda>w b q. w" "\<lambda>w b. w" b_unmapped
        "scan_init ()"]
      sam_scan_abort_iff[of "\<lambda>w b. w" "()" "[b_back]"
        "None :: (int \<Rightarrow> unit option) option" "\<lambda>w b q. w" "\<lambda>w b. w" b_unmapped
        "scan_init ()"]
    by simp
qed

section \<open>The multiread resolver: \<^verbatim>\<open>MultireadSamplerThread::run\<close>\<close>

text \<open>
  An alignment record holds two pointers, \<^verbatim>\<open>prob\<close> into \<^verbatim>\<open>frag_probs[c]\<close> and \<^verbatim>\<open>count\<close>
  into \<^verbatim>\<open>frag_counts[c]\<close>. A pointer is a pair (component, offset); dereferencing it
  outside the arrays is undefined behaviour and gives \<open>None\<close>.

  Probabilities and counts are \<^verbatim>\<open>float\<close>s, and \<^verbatim>\<open>sumprob\<close> and \<^verbatim>\<open>r\<close> are \<^verbatim>\<open>float\<close>
  variables: every \<^verbatim>\<open>+=\<close>, \<^verbatim>\<open>*\<close>, \<^verbatim>\<open>-=\<close> and \<^verbatim>\<open><=\<close> of the loop is an operation of the
  machine, with its rounding (the product \<^verbatim>\<open>sumprob * gsl_rng_uniform(rng)\<close> is formed in
  \<^verbatim>\<open>double\<close> and rounded to \<^verbatim>\<open>float\<close>; this is the operation \<open>*\<close> here). The functions below are written for any type that has
  these operations, and no law of arithmetic is assumed of them (no associativity, no
  monotonicity, no relation between \<open>+\<close> and \<open>-\<close>): what is proved of them holds for the
  arithmetic of the machine as it does for exact arithmetic.
\<close>

type_synonym addr = "nat \<times> nat"

record MultireadAlignment =
  prob :: addr
  count :: addr






text \<open>
  The records of a multiread are built by \<^verbatim>\<open>Sampler::Sampler\<close> from the fragment indices
  that \<^verbatim>\<open>multiread_frags\<close> holds for it: with \<^verbatim>\<open>c = ds[f]\<close> the component of the fragment \<open>f\<close>,
  \<^verbatim>\<open>prob = &frag_probs[c][f - component_frag[c]]\<close> and
  \<^verbatim>\<open>count = &frag_counts[c][f - component_frag[c]]\<close>, the subtraction being that of
  \<^verbatim>\<open>unsigned int\<close>.
\<close>

definition alignment_record :: "nat list \<Rightarrow> nat list \<Rightarrow> nat \<Rightarrow> MultireadAlignment option" where
  "alignment_record ds component_frag f =
     do {
       c \<leftarrow> cell ds f;
       lo \<leftarrow> cell component_frag c;
       Some \<lparr>prob = (c, usub32 f lo), count = (c, usub32 f lo)\<rparr>
     }"

fun alignment_records :: "nat list \<Rightarrow> nat list \<Rightarrow> nat list \<Rightarrow> MultireadAlignment list option" where
  "alignment_records ds component_frag [] = Some []"
| "alignment_records ds component_frag (f # fs) =
     do {
       a \<leftarrow> alignment_record ds component_frag f;
       as \<leftarrow> alignment_records ds component_frag fs;
       Some (a # as)
     }"

subsection \<open>The selected alignment\<close>



definition sumprob_of :: "'f::{zero,plus} list \<Rightarrow> 'f" where
  "sumprob_of ps = foldl (+) 0 ps"

definition left_at :: "'f::minus \<Rightarrow> 'f list \<Rightarrow> nat \<Rightarrow> 'f" where
  "left_at r ps i = foldl (-) r (take i ps)"

definition covers :: "'f::{ord,minus} \<Rightarrow> 'f list \<Rightarrow> nat \<Rightarrow> bool" where
  "covers r ps i = (left_at r ps i \<le> ps ! i)"


lemma sumprob_of_exact: "sumprob_of ps = sum_list (ps :: 'f::monoid_add list)"
proof -
  have "foldl (+) s ps = s + sum_list ps" for s :: 'f
    by (induction ps arbitrary: s) (simp_all add: add.assoc)
  from this[of 0] show ?thesis
    by (simp add: sumprob_of_def)
qed

lemma left_at_exact: "left_at r ps i = r - sum_list (take i (ps :: 'f::ab_group_add list))"
proof -
  have "foldl (-) s qs = s - sum_list qs" for s :: 'f and qs
    by (induction qs arbitrary: s) (simp_all add: algebra_simps)
  then show ?thesis
    by (simp add: left_at_def)
qed

lemma covers_exact:
  fixes r :: "'f::linordered_ab_group_add"
  assumes "i < length ps"
  shows "covers r ps i \<longleftrightarrow> r \<le> sum_list (take (Suc i) ps)"
  using assms by (auto simp: covers_def left_at_exact take_Suc_conv_app_nth algebra_simps)






text \<open>
  The records that the constructor builds from pairwise different fragment indices
  have pairwise different count cells, when every fragment lies at or after the first
  fragment of its component.
\<close>

lemma alignment_records_distinct:
  assumes "alignment_records ds component_frag fs = Some as"
    and "distinct fs"
    and "list_all (\<lambda>f. f < 2 ^ 32 \<and> component_frag ! (ds ! f) \<le> f) fs"
  shows "distinct (map count as) \<and> length as = length fs"
proof -
  have "map count as = map (\<lambda>f. (ds ! f, f - component_frag ! (ds ! f))) fs"
    using assms(1,3)
  proof (induction fs arbitrary: as)
    case Nil
    then show ?case by simp
  next
    case (Cons f fs)
    from Cons.prems(1) obtain a as' where
      a: "alignment_record ds component_frag f = Some a"
      and as': "alignment_records ds component_frag fs = Some as'" and e: "as = a # as'"
      by (auto split: bind_splits)
    from Cons.prems(2) have b: "f < 2 ^ 32" "component_frag ! (ds ! f) \<le> f"
      and rest: "list_all (\<lambda>f. f < 2 ^ 32 \<and> component_frag ! (ds ! f) \<le> f) fs"
      by simp_all
    from a have "count a = (ds ! f, usub32 f (component_frag ! (ds ! f)))"
      by (auto simp: alignment_record_def cell_def split: bind_splits if_splits)
    with usub32_minus[OF b(2,1)] have "count a = (ds ! f, f - component_frag ! (ds ! f))"
      by simp
    with Cons.IH[OF as' rest] e show ?case
      by simp
  qed
  moreover have "inj_on (\<lambda>f. (ds ! f, f - component_frag ! (ds ! f))) (set fs)"
  proof (rule inj_onI)
    fix f g assume f: "f \<in> set fs" and g: "g \<in> set fs"
      and e: "(ds ! f, f - component_frag ! (ds ! f)) = (ds ! g, g - component_frag ! (ds ! g))"
    from assms(3) f g have "component_frag ! (ds ! f) \<le> f" "component_frag ! (ds ! g) \<le> g"
      by (simp_all add: list_all_iff)
    with e show "f = g"
      by auto
  qed
  ultimately show ?thesis
    using assms(2) by (simp add: distinct_map) (metis length_map)
qed




text \<open>
  An arithmetic that rounds, for an example: real numbers, where every result of
  magnitude 16 or more is rounded to the nearest even integer, in the way \<^verbatim>\<open>float\<close>
  rounds from \<open>2\<^sup>2\<^sup>4\<close> on.
\<close>

datatype coarse = Coarse real

fun val :: "coarse \<Rightarrow> real" where
  "val (Coarse x) = x"

definition round_coarse :: "real \<Rightarrow> coarse" where
  "round_coarse x = Coarse (if \<bar>x\<bar> < 16 then x else 2 * of_int \<lfloor>x / 2 + 1 / 2\<rfloor>)"

instantiation coarse :: "{zero,one,plus,minus,times,ord}"
begin

definition zero_coarse :: coarse where
  "zero_coarse = Coarse 0"

definition one_coarse :: coarse where
  "one_coarse = Coarse 1"

definition plus_coarse :: "coarse \<Rightarrow> coarse \<Rightarrow> coarse" where
  "plus_coarse a b = round_coarse (val a + val b)"

definition minus_coarse :: "coarse \<Rightarrow> coarse \<Rightarrow> coarse" where
  "minus_coarse a b = round_coarse (val a - val b)"

definition times_coarse :: "coarse \<Rightarrow> coarse \<Rightarrow> coarse" where
  "times_coarse a b = round_coarse (val a * val b)"

definition less_eq_coarse :: "coarse \<Rightarrow> coarse \<Rightarrow> bool" where
  "less_eq_coarse a b = (val a \<le> val b)"

definition less_coarse :: "coarse \<Rightarrow> coarse \<Rightarrow> bool" where
  "less_coarse a b = (val a < val b)"

instance ..

end



section \<open>The pairwise move of the sampler: \<^verbatim>\<open>MCMCThread::run_inter_transcript\<close>\<close>

text \<open>
  The mixtures \<^verbatim>\<open>tmix\<close> are \<^verbatim>\<open>double\<close>s, the fragment arrays and the local variables of the
  move are \<^verbatim>\<open>float\<close>s. As in the multiread resolver, the functions are written for any
  type with the operations they use and no law of arithmetic is assumed; conversions
  between the two precisions are not modelled.

  What the move calls and \<^verbatim>\<open>src/\<close> does not hold is a parameter: \<^verbatim>\<open>constants::zero_eps\<close>,
  \<^verbatim>\<open>dotlog\<close> and \<^verbatim>\<open>fastlog2\<close>, \<^verbatim>\<open>finite\<close>, and \<^verbatim>\<open>gsl_rng_uniform\<close>, whose generator is the counter
  \<open>rng\<close> of the draws made so far. The four constants of
  \<^verbatim>\<open>transcript_slice_sample_search\<close> (\<^verbatim>\<open>xmin = 1e-12f\<close>, \<^verbatim>\<open>xmax = 1.0f - 1e-12f\<close>,
  \<^verbatim>\<open>xeps = 1e-4f\<close>, \<^verbatim>\<open>leps = 1e-10f\<close>, and \<^verbatim>\<open>delta = xeps\<close>) are fields as well, the type of
  numbers being open. The assertions of the source are compiled out: one of them names
  variables that are not declared, so the file compiles only with \<^verbatim>\<open>NDEBUG\<close>.
\<close>

record 'f numerics =
  zero_eps :: 'f
  xmin :: 'f
  xmax :: 'f
  xeps :: 'f
  leps :: 'f
  dotlog :: "'f list \<Rightarrow> 'f list \<Rightarrow> nat \<Rightarrow> 'f"
  fastlog2 :: "'f \<Rightarrow> 'f"
  isfinite :: "'f \<Rightarrow> bool"
  gsl_rng_uniform :: "nat \<Rightarrow> 'f"

text \<open>
  The part of \<^verbatim>\<open>Sampler\<close> that the move reads and writes.
\<close>

record 'f Sampler =
  weight_matrix :: "'f WeightMatrix"
  num_components :: nat
  transcript_component :: "nat list"
  component_frag :: "nat list"
  frag_counts :: "'f list list"
  frag_probs :: "'f list list"
  frag_probs_prop :: "'f list list"
  tmix :: "'f list"
  rng :: nat

text \<open>
  Modelled from the spec: \<^verbatim>\<open>asxpy\<close> of \<^verbatim>\<open>linalg.hpp\<close>, which is not in \<^verbatim>\<open>src/\<close>. It is the sparse
  scaled add over the nonzero weights of a row: \<^verbatim>\<open>xs[idx[i] - off] += c * ys[i]\<close> for
  \<^verbatim>\<open>i < n\<close>, the index being an \<^verbatim>\<open>unsigned int\<close>. A cell outside an array is \<open>None\<close>.
\<close>

fun asxpy_loop ::
  "'f::{plus,times} list \<Rightarrow> 'f list \<Rightarrow> 'f \<Rightarrow> nat list \<Rightarrow> nat \<Rightarrow> nat list \<Rightarrow> 'f list option"
where
  "asxpy_loop xs ys c idx off [] = Some xs"
| "asxpy_loop xs ys c idx off (i # is) =
     do {
       j \<leftarrow> cell idx i;
       y \<leftarrow> cell ys i;
       x \<leftarrow> cell xs (usub32 j off);
       asxpy_loop (xs[usub32 j off := x + c * y]) ys c idx off is
     }"

definition asxpy ::
  "'f::{plus,times} list \<Rightarrow> 'f list \<Rightarrow> 'f \<Rightarrow> nat list \<Rightarrow> nat \<Rightarrow> nat \<Rightarrow> 'f list option"
where
  "asxpy xs ys c idx off n = asxpy_loop xs ys c idx off [0 ..< n]"

text \<open>
  \<^verbatim>\<open>component_frag[c + 1] - component_frag[c]\<close>, and \<^verbatim>\<open>asxpy\<close> on row \<open>t\<close> of the weight
  matrix, as the move and the slice search call it.
\<close>

definition component_size :: "'f Sampler \<Rightarrow> nat \<Rightarrow> nat option" where
  "component_size S c =
     do {
       hi \<leftarrow> cell (component_frag S) (c + 1);
       lo \<leftarrow> cell (component_frag S) c;
       Some (usub32 hi lo)
     }"

definition asxpy_row ::
  "'f::{plus,times} Sampler \<Rightarrow> 'f list \<Rightarrow> nat \<Rightarrow> 'f \<Rightarrow> nat \<Rightarrow> 'f list option" where
  "asxpy_row S xs t a c =
     do {
       row \<leftarrow> cell (rows (weight_matrix S)) t;
       idx \<leftarrow> cell (idxs (weight_matrix S)) t;
       off \<leftarrow> cell (component_frag S) c;
       n \<leftarrow> cell (rowlens (weight_matrix S)) t;
       asxpy xs row a idx off n
     }"

text \<open>
  \<^verbatim>\<open>recompute_component_probability\<close> copies the first \<^verbatim>\<open>component_size\<close> cells of
  \<^verbatim>\<open>frag_probs[c]\<close> to \<^verbatim>\<open>frag_probs_prop[c]\<close> (\<^verbatim>\<open>acopy\<close>), adds the two changes there and
  returns the likelihood of the proposal.
\<close>

definition recompute_component_probability ::
  "'f::{plus,minus,times} numerics \<Rightarrow> 'f Sampler \<Rightarrow> nat \<Rightarrow> nat \<Rightarrow> 'f \<Rightarrow> 'f \<Rightarrow>
   ('f Sampler \<times> 'f) option"
where
  "recompute_component_probability N S u v tmixu tmixv =
     do {
       c \<leftarrow> cell (transcript_component S) u;
       n \<leftarrow> component_size S c;
       probs \<leftarrow> cell (frag_probs S) c;
       prop \<leftarrow> cell (frag_probs_prop S) c;
       counts \<leftarrow> cell (frag_counts S) c;
       if n \<le> length probs \<and> n \<le> length prop then
         do {
           let prop = take n probs @ drop n prop;
           tu \<leftarrow> cell (tmix S) u;
           tv \<leftarrow> cell (tmix S) v;
           prop \<leftarrow> asxpy_row S prop u (tmixu - tu) c;
           prop \<leftarrow> asxpy_row S prop v (tmixv - tv) c;
           Some (S\<lparr>frag_probs_prop := (frag_probs_prop S)[c := prop]\<rparr>, dotlog N counts prop n)
         }
       else None
     }"

text \<open>
  The slice search. Its local variables \<^verbatim>\<open>low\<close>, \<^verbatim>\<open>high\<close>, \<^verbatim>\<open>lowp\<close>, \<^verbatim>\<open>highp\<close>, \<^verbatim>\<open>c\<close>, \<^verbatim>\<open>d\<close>, \<^verbatim>\<open>s\<close>,
  \<^verbatim>\<open>cL\<close> and \<^verbatim>\<open>mflag\<close> are the record \<open>bracket\<close>; \<^verbatim>\<open>abs\<close> and \<^verbatim>\<open>fabs\<close> are both the
  absolute value of the number type. \<open>order_ends\<close> is the swap
  \<^verbatim>\<open>if (abs(lowp) < abs(highp)) { swap(low, high); swap(lowp, highp); }\<close>, \<open>next_point\<close>
  the choice of \<^verbatim>\<open>s\<close> at the head of the loop body (bisection, inverse quadratic
  interpolation or the secant rule), and \<open>search_loop\<close> the \<^verbatim>\<open>while\<close> loop, which need not
  end.
\<close>

record 'f bracket =
  low :: 'f
  high :: 'f
  lowp :: 'f
  highp :: 'f
  cx :: 'f
  dx :: 'f
  sx :: 'f
  cL :: 'f
  mflag :: bool

definition two :: "'f::{one,plus}" where "two = 1 + 1"
definition three :: "'f::{one,plus}" where "three = 1 + 1 + 1"
definition four :: "'f::{one,plus}" where "four = 1 + 1 + 1 + 1"

definition order_ends :: "'f::{abs,ord} bracket \<Rightarrow> 'f bracket" where
  "order_ends q =
     (if \<bar>lowp q\<bar> < \<bar>highp q\<bar>
      then q\<lparr>low := high q, high := low q, lowp := highp q, highp := lowp q\<rparr> else q)"

definition next_point ::
  "'f::{zero,one,plus,minus,times,inverse,abs,ord} numerics \<Rightarrow> 'f bracket \<Rightarrow> 'f bracket"
where
  "next_point N q =
     (if \<not> isfinite N (lowp q) \<or> \<not> isfinite N (highp q)
      then q\<lparr>sx := (high q + low q) / two\<rparr>
      else
        let s = (if lowp q \<noteq> cL q \<and> highp q \<noteq> cL q
                 then (low q * highp q * cL q) / ((lowp q - highp q) * (lowp q - cL q))
                    + (high q * lowp q * cL q) / ((highp q - lowp q) * (highp q - cL q))
                    + (cx q * lowp q * highp q) / ((cL q - lowp q) * (cL q - highp q))
                 else high q - highp q * (high q - low q) / (highp q - lowp q))
        in if (s < (three * low q + high q) / four \<or> s > high q)
              \<or> (mflag q \<and> \<bar>s - high q\<bar> \<ge> \<bar>high q - cx q\<bar> / two)
              \<or> (\<not> mflag q \<and> \<bar>s - high q\<bar> \<ge> \<bar>cx q - dx q\<bar> / two)
              \<or> (mflag q \<and> \<bar>high q - cx q\<bar> < xeps N)
              \<or> (\<not> mflag q \<and> \<bar>cx q - dx q\<bar> < xeps N)
           then q\<lparr>sx := (high q + low q) / two, mflag := True\<rparr>
           else q\<lparr>sx := s\<rparr>)"

partial_function (option) search_loop ::
  "'f::{zero,one,plus,minus,times,inverse,abs,ord} numerics \<Rightarrow> 'f \<Rightarrow> nat \<Rightarrow> nat \<Rightarrow> 'f \<Rightarrow>
   'f Sampler \<Rightarrow> 'f bracket \<Rightarrow> ('f Sampler \<times> 'f bracket) option"
where
  "search_loop N slice_height u v tmixuv S q =
     (if \<bar>high q - low q\<bar> > xeps N \<and> \<bar>lowp q\<bar> > leps N \<and> \<bar>highp q\<bar> > leps N then
        do {
          let q = (next_point N q)\<lparr>mflag := False\<rparr>;
          (S, p) \<leftarrow> recompute_component_probability N S u v (sx q * tmixuv) ((1 - sx q) * tmixuv);
          let sL = p - slice_height;
          let q = q\<lparr>dx := cx q, cx := high q, cL := highp q\<rparr>;
          let q = (if lowp q * sL < 0 then q\<lparr>high := sx q, highp := sL\<rparr>
                   else q\<lparr>low := sx q, lowp := sL\<rparr>);
          search_loop N slice_height u v tmixuv S (order_ends q)
        }
      else Some (S, q))"

declare search_loop.simps [code]

definition transcript_slice_sample_search ::
  "'f::{zero,one,plus,minus,times,inverse,abs,ord} numerics \<Rightarrow> 'f Sampler \<Rightarrow> 'f \<Rightarrow> nat \<Rightarrow> nat \<Rightarrow>
   'f \<Rightarrow> 'f \<Rightarrow> bool \<Rightarrow> ('f Sampler \<times> 'f) option"
where
  "transcript_slice_sample_search N S slice_height u v z0 p0 left =
     do {
       tu \<leftarrow> cell (tmix S) u;
       tv \<leftarrow> cell (tmix S) v;
       let tmixuv = tu + tv;
       let lo = (if left then xmin N else z0);
       let hi = (if left then z0 else xmax N);
       (S, lp) \<leftarrow> (if left
                    then recompute_component_probability N S u v (lo * tmixuv) ((1 - lo) * tmixuv)
                    else Some (S, p0));
       let lp = lp - slice_height;
       if left \<and> lp \<ge> 0 then Some (S, lo)
       else do {
         (S, hp) \<leftarrow> (if \<not> left
                      then recompute_component_probability N S u v (hi * tmixuv) ((1 - hi) * tmixuv)
                      else Some (S, p0));
         let hp = hp - slice_height;
         if \<not> left \<and> hp \<ge> 0 then Some (S, hi)
         else do {
           let q = order_ends \<lparr>low = lo, high = hi, lowp = lp, highp = hp,
                                cx = 0, dx = 0, sx = 0, cL = 0, mflag = True\<rparr>;
           let q = q\<lparr>mflag := True, sx := high q, dx := 0, cx := low q, cL := lowp q\<rparr>;
           (S, q) \<leftarrow> search_loop N slice_height u v tmixuv S q;
           let m = (if xmin N < sx q then sx q else xmin N);
           Some (S, if m < xmax N then m else xmax N)
         }
       }
     }"

text \<open>
  The move itself. It draws the slice height with the first uniform number; when the
  height is finite it searches the two ends of the slice and draws \<^verbatim>\<open>z\<close> between them,
  otherwise \<^verbatim>\<open>z\<close> is the next uniform number.
\<close>

definition run_inter_transcript ::
  "'f::{zero,one,plus,minus,times,inverse,abs,ord} numerics \<Rightarrow> 'f Sampler \<Rightarrow> nat \<Rightarrow> nat \<Rightarrow>
   'f Sampler option"
where
  "run_inter_transcript N S u v =
     do {
       tu \<leftarrow> cell (tmix S) u;
       tv \<leftarrow> cell (tmix S) v;
       if tu + tv < zero_eps N then Some S
       else do {
         c \<leftarrow> cell (transcript_component S) u;
         n \<leftarrow> component_size S c;
         counts \<leftarrow> cell (frag_counts S) c;
         probs \<leftarrow> cell (frag_probs S) c;
         let p0 = dotlog N counts probs n;
         let slice_height = fastlog2 N (gsl_rng_uniform N (rng S)) + p0;
         let S = S\<lparr>rng := rng S + 1\<rparr>;
         let z0 = tu / (tu + tv);
         (S, z) \<leftarrow>
           (if isfinite N slice_height then
              do {
                (S, s0) \<leftarrow> transcript_slice_sample_search N S slice_height u v z0 p0 True;
                (S, s1) \<leftarrow> transcript_slice_sample_search N S slice_height u v z0 p0 False;
                Some (S\<lparr>rng := rng S + 1\<rparr>, s0 + gsl_rng_uniform N (rng S) * (s1 - s0))
              }
            else Some (S\<lparr>rng := rng S + 1\<rparr>, gsl_rng_uniform N (rng S)));
         let tmixu = z * (tu + tv);
         let tmixv = (1 - z) * (tu + tv);
         let tmix_delta_u = tmixu - tu;
         let tmix_delta_v = tmixv - tv;
         probs \<leftarrow> cell (frag_probs S) c;
         probs \<leftarrow> asxpy_row S probs u tmix_delta_u c;
         probs \<leftarrow> asxpy_row S probs v tmix_delta_v c;
         Some (S\<lparr>frag_probs := (frag_probs S)[c := probs],
                 tmix := (tmix S)[u := tmixu, v := tmixv]\<rparr>)
       }
     }"

subsection \<open>The two fallbacks\<close>

text \<open>
  A sampler is well formed when its arrays have the sizes that \<^verbatim>\<open>Sampler::Sampler\<close> gives
  them and every column index of a row lies among the fragments of the component of
  the row.
\<close>

definition frag_range :: "'f Sampler \<Rightarrow> nat \<Rightarrow> nat" where
  "frag_range S c = component_frag S ! (c + 1) - component_frag S ! c"

definition wf_sampler :: "'f Sampler \<Rightarrow> bool" where
  "wf_sampler S =
     (let W = weight_matrix S; n = nrow W; m = num_components S in
      length (rows W) = n \<and> length (idxs W) = n \<and> length (rowlens W) = n \<and>
      length (transcript_component S) = n \<and> length (tmix S) = n \<and>
      length (component_frag S) = m + 1 \<and>
      length (frag_counts S) = m \<and> length (frag_probs S) = m \<and> length (frag_probs_prop S) = m \<and>
      list_all (\<lambda>c. component_frag S ! c \<le> component_frag S ! (c + 1) \<and>
                     component_frag S ! (c + 1) < 2 ^ 32 \<and>
                     length (frag_counts S ! c) = frag_range S c \<and>
                     length (frag_probs S ! c) = frag_range S c \<and>
                     length (frag_probs_prop S ! c) = frag_range S c) [0 ..< m] \<and>
      list_all (\<lambda>t. transcript_component S ! t < m \<and>
                     rowlens W ! t \<le> length (rows W ! t) \<and>
                     rowlens W ! t \<le> length (idxs W ! t) \<and>
                     list_all (\<lambda>j. component_frag S ! (transcript_component S ! t) \<le> j \<and>
                                    j < component_frag S ! (transcript_component S ! t + 1))
                       (take (rowlens W ! t) (idxs W ! t))) [0 ..< n])"

lemma asxpy_loop_Some:
  assumes "\<forall>i\<in>set is. i < length idx \<and> i < length ys \<and> usub32 (idx ! i) off < length xs"
  shows "\<exists>xs'. asxpy_loop xs ys c idx off is = Some xs' \<and> length xs' = length xs"
  using assms
proof (induction "is" arbitrary: xs)
  case Nil
  show ?case by simp
next
  case (Cons i "is")
  let ?xs = "xs[usub32 (idx ! i) off := xs ! usub32 (idx ! i) off + c * ys ! i]"
  from Cons.prems have "\<forall>i\<in>set is. i < length idx \<and> i < length ys \<and> usub32 (idx ! i) off < length ?xs"
    by simp
  from Cons.IH[OF this] Cons.prems show ?case
    by (simp add: cell_def)
qed


lemma wf_samplerD:
  assumes "wf_sampler S"
  shows "length (rows (weight_matrix S)) = nrow (weight_matrix S)"
    and "length (idxs (weight_matrix S)) = nrow (weight_matrix S)"
    and "length (rowlens (weight_matrix S)) = nrow (weight_matrix S)"
    and "length (transcript_component S) = nrow (weight_matrix S)"
    and "length (tmix S) = nrow (weight_matrix S)"
    and "length (component_frag S) = num_components S + 1"
    and "length (frag_counts S) = num_components S"
    and "length (frag_probs S) = num_components S"
    and "length (frag_probs_prop S) = num_components S"
    and "\<And>c. c < num_components S \<Longrightarrow>
           component_frag S ! c \<le> component_frag S ! (c + 1) \<and>
           component_frag S ! (c + 1) < 2 ^ 32 \<and>
           length (frag_counts S ! c) = frag_range S c \<and>
           length (frag_probs S ! c) = frag_range S c \<and>
           length (frag_probs_prop S ! c) = frag_range S c"
    and "\<And>t. t < nrow (weight_matrix S) \<Longrightarrow>
           transcript_component S ! t < num_components S \<and>
           rowlens (weight_matrix S) ! t \<le> length (rows (weight_matrix S) ! t) \<and>
           rowlens (weight_matrix S) ! t \<le> length (idxs (weight_matrix S) ! t)"
    and "\<And>t k. t < nrow (weight_matrix S) \<Longrightarrow> k < rowlens (weight_matrix S) ! t \<Longrightarrow>
           component_frag S ! (transcript_component S ! t) \<le> idxs (weight_matrix S) ! t ! k \<and>
           idxs (weight_matrix S) ! t ! k < component_frag S ! (transcript_component S ! t + 1)"
proof -
  from assms show "length (rows (weight_matrix S)) = nrow (weight_matrix S)"
    "length (idxs (weight_matrix S)) = nrow (weight_matrix S)"
    "length (rowlens (weight_matrix S)) = nrow (weight_matrix S)"
    "length (transcript_component S) = nrow (weight_matrix S)"
    "length (tmix S) = nrow (weight_matrix S)"
    "length (component_frag S) = num_components S + 1"
    "length (frag_counts S) = num_components S"
    "length (frag_probs S) = num_components S"
    "length (frag_probs_prop S) = num_components S"
    by (simp_all add: wf_sampler_def Let_def)
  from assms have c: "list_all (\<lambda>c. component_frag S ! c \<le> component_frag S ! (c + 1) \<and>
                     component_frag S ! (c + 1) < 2 ^ 32 \<and>
                     length (frag_counts S ! c) = frag_range S c \<and>
                     length (frag_probs S ! c) = frag_range S c \<and>
                     length (frag_probs_prop S ! c) = frag_range S c) [0 ..< num_components S]"
    by (simp add: wf_sampler_def Let_def)
  show "component_frag S ! c \<le> component_frag S ! (c + 1) \<and>
           component_frag S ! (c + 1) < 2 ^ 32 \<and>
           length (frag_counts S ! c) = frag_range S c \<and>
           length (frag_probs S ! c) = frag_range S c \<and>
           length (frag_probs_prop S ! c) = frag_range S c" if "c < num_components S" for c
    using c that unfolding list_all_iff by simp
  from assms have t: "list_all (\<lambda>t. transcript_component S ! t < num_components S \<and>
                     rowlens (weight_matrix S) ! t \<le> length (rows (weight_matrix S) ! t) \<and>
                     rowlens (weight_matrix S) ! t \<le> length (idxs (weight_matrix S) ! t) \<and>
                     list_all (\<lambda>j. component_frag S ! (transcript_component S ! t) \<le> j \<and>
                                    j < component_frag S ! (transcript_component S ! t + 1))
                       (take (rowlens (weight_matrix S) ! t) (idxs (weight_matrix S) ! t)))
                [0 ..< nrow (weight_matrix S)]"
    by (simp add: wf_sampler_def Let_def)
  show "transcript_component S ! t < num_components S \<and>
           rowlens (weight_matrix S) ! t \<le> length (rows (weight_matrix S) ! t) \<and>
           rowlens (weight_matrix S) ! t \<le> length (idxs (weight_matrix S) ! t)"
    if "t < nrow (weight_matrix S)" for t
    using t that unfolding list_all_iff by simp
  show "component_frag S ! (transcript_component S ! t) \<le> idxs (weight_matrix S) ! t ! k \<and>
           idxs (weight_matrix S) ! t ! k < component_frag S ! (transcript_component S ! t + 1)"
    if "t < nrow (weight_matrix S)" "k < rowlens (weight_matrix S) ! t" for t k
  proof -
    from t that(1) have l: "rowlens (weight_matrix S) ! t \<le> length (idxs (weight_matrix S) ! t)"
      and a: "list_all (\<lambda>j. component_frag S ! (transcript_component S ! t) \<le> j \<and>
                                    j < component_frag S ! (transcript_component S ! t + 1))
                       (take (rowlens (weight_matrix S) ! t) (idxs (weight_matrix S) ! t))"
      unfolding list_all_iff by simp_all
    let ?xs = "take (rowlens (weight_matrix S) ! t) (idxs (weight_matrix S) ! t)"
    from that(2) l have "k < length ?xs" by simp
    then have "?xs ! k \<in> set ?xs" by (rule nth_mem)
    moreover from that(2) have "?xs ! k = idxs (weight_matrix S) ! t ! k" by simp
    ultimately show ?thesis
      using a unfolding list_all_iff by auto
  qed
qed

lemma asxpy_row_Some:
  assumes wf: "wf_sampler S" and t: "t < nrow (weight_matrix S)"
    and c: "c = transcript_component S ! t" and len: "length xs = frag_range S c"
  shows "\<exists>xs'. asxpy_row S xs t a c = Some xs' \<and> length xs' = length xs"
proof -
  note D = wf_samplerD[OF wf]
  from D(11)[OF t] c have cm: "c < num_components S"
    and r1: "rowlens (weight_matrix S) ! t \<le> length (rows (weight_matrix S) ! t)"
    and r2: "rowlens (weight_matrix S) ! t \<le> length (idxs (weight_matrix S) ! t)"
    by simp_all
  from D(10)[OF cm] have mono: "component_frag S ! c \<le> component_frag S ! (c + 1)"
    and b32: "component_frag S ! (c + 1) < 2 ^ 32"
    by simp_all
  have "\<forall>i\<in>set [0 ..< rowlens (weight_matrix S) ! t].
      i < length (idxs (weight_matrix S) ! t) \<and> i < length (rows (weight_matrix S) ! t) \<and>
      usub32 (idxs (weight_matrix S) ! t ! i) (component_frag S ! c) < length xs"
  proof
    fix i assume "i \<in> set [0 ..< rowlens (weight_matrix S) ! t]"
    then have i: "i < rowlens (weight_matrix S) ! t" by simp
    from D(12)[OF t i] c have lo: "component_frag S ! c \<le> idxs (weight_matrix S) ! t ! i"
      and hi: "idxs (weight_matrix S) ! t ! i < component_frag S ! (c + 1)"
      by simp_all
    from hi b32 have "idxs (weight_matrix S) ! t ! i < 2 ^ 32" by simp
    from usub32_minus[OF lo this] lo hi have
      "usub32 (idxs (weight_matrix S) ! t ! i) (component_frag S ! c) < length xs"
      by (simp add: len frag_range_def)
    with i r1 r2 show "i < length (idxs (weight_matrix S) ! t) \<and>
      i < length (rows (weight_matrix S) ! t) \<and>
      usub32 (idxs (weight_matrix S) ! t ! i) (component_frag S ! c) < length xs"
      by simp
  qed
  from asxpy_loop_Some[OF this, of a] obtain xs' where
    "asxpy_loop xs (rows (weight_matrix S) ! t) a (idxs (weight_matrix S) ! t) (component_frag S ! c)
       [0 ..< rowlens (weight_matrix S) ! t] = Some xs'" "length xs' = length xs"
    by blast
  then show ?thesis
    using t cm D(1,2,3,6) by (simp add: asxpy_row_def asxpy_def cell_def)
qed

lemma asxpy_row_rng [simp]: "asxpy_row (S\<lparr>rng := k\<rparr>) xs t a c = asxpy_row S xs t a c"
  by (simp add: asxpy_row_def)

text \<open>
  C6. When \<^verbatim>\<open>tmix[u] + tmix[v]\<close> is below \<^verbatim>\<open>zero_eps\<close> the move returns the sampler as it
  was: \<^verbatim>\<open>tmix\<close>, \<^verbatim>\<open>frag_probs\<close>, the generator and everything else are unchanged. When the
  sum is not below \<^verbatim>\<open>zero_eps\<close> and the slice height (the current likelihood plus
  \<^verbatim>\<open>fastlog2\<close> of a uniform number) is not finite, the move of a well-formed sampler
  returns too, no slice search is made (\<^verbatim>\<open>frag_probs_prop\<close> is untouched and exactly two
  uniform numbers are drawn), and the new split \<^verbatim>\<open>z\<close> is the second uniform number:
  \<^verbatim>\<open>tmix[u] = z * sum\<close>, \<^verbatim>\<open>tmix[v] = (1 - z) * sum\<close>, and \<^verbatim>\<open>frag_probs[c]\<close> receives the two
  scaled additions of the changes of \<^verbatim>\<open>tmix[u]\<close> and \<^verbatim>\<open>tmix[v]\<close>.
\<close>

theorem run_inter_transcript_degenerate:
  fixes N :: "'f::{zero,one,plus,minus,times,inverse,abs,ord} numerics"
    and S :: "'f Sampler" and u v :: nat
  defines "z \<equiv> gsl_rng_uniform N (rng S + 1)"
  defines "c \<equiv> transcript_component S ! u"
  defines "z_sum \<equiv> tmix S ! u + tmix S ! v"
  shows "(u < length (tmix S) \<and> v < length (tmix S) \<and> z_sum < zero_eps N
            \<longrightarrow> run_inter_transcript N S u v = Some S)
   \<and> (wf_sampler S \<and> u < nrow (weight_matrix S) \<and> v < nrow (weight_matrix S)
        \<and> transcript_component S ! v = c
        \<and> \<not> z_sum < zero_eps N
        \<and> \<not> isfinite N (fastlog2 N (gsl_rng_uniform N (rng S))
              + dotlog N (frag_counts S ! c) (frag_probs S ! c)
                  (usub32 (component_frag S ! (c + 1)) (component_frag S ! c)))
        \<longrightarrow> (\<exists>p1 p2.
              asxpy_row S (frag_probs S ! c) u (z * z_sum - tmix S ! u) c = Some p1
            \<and> asxpy_row S p1 v ((1 - z) * z_sum - tmix S ! v) c = Some p2
            \<and> run_inter_transcript N S u v
                = Some (S\<lparr>rng := rng S + 2,
                          frag_probs := (frag_probs S)[c := p2],
                          tmix := (tmix S)[u := z * z_sum, v := (1 - z) * z_sum]\<rparr>)))"
proof (intro conjI impI)
  assume "u < length (tmix S) \<and> v < length (tmix S) \<and> z_sum < zero_eps N"
  then show "run_inter_transcript N S u v = Some S"
    by (simp add: run_inter_transcript_def cell_def z_sum_def)
next
  assume a: "wf_sampler S \<and> u < nrow (weight_matrix S) \<and> v < nrow (weight_matrix S)
        \<and> transcript_component S ! v = c
        \<and> \<not> z_sum < zero_eps N
        \<and> \<not> isfinite N (fastlog2 N (gsl_rng_uniform N (rng S))
              + dotlog N (frag_counts S ! c) (frag_probs S ! c)
                  (usub32 (component_frag S ! (c + 1)) (component_frag S ! c)))"
  then have wf: "wf_sampler S" and u: "u < nrow (weight_matrix S)" and v: "v < nrow (weight_matrix S)"
    and cv: "c = transcript_component S ! v" and cu: "c = transcript_component S ! u"
    by (simp_all add: c_def)
  note D = wf_samplerD[OF wf]
  from D(11)[OF u] have cm: "c < num_components S" by (simp add: c_def)
  from D(10)[OF cm] have lp: "length (frag_probs S ! c) = frag_range S c" by simp
  from asxpy_row_Some[OF wf u cu lp] obtain p1 where
    p1: "asxpy_row S (frag_probs S ! c) u (z * z_sum - tmix S ! u) c = Some p1"
      "length p1 = length (frag_probs S ! c)"
    by blast
  from p1(2) lp have "length p1 = frag_range S c" by simp
  from asxpy_row_Some[OF wf v cv this] obtain p2 where
    p2: "asxpy_row S p1 v ((1 - z) * z_sum - tmix S ! v) c = Some p2"
    by blast
  have "run_inter_transcript N S u v
      = Some (S\<lparr>rng := rng S + 2,
                frag_probs := (frag_probs S)[c := p2],
                tmix := (tmix S)[u := z * z_sum, v := (1 - z) * z_sum]\<rparr>)"
    using a u v cm D(4,5,6,7,8) p1(1) p2
    by (simp add: run_inter_transcript_def cell_def component_size_def Let_def
        z_sum_def c_def z_def)
  with p1(1) p2 show "\<exists>p1 p2.
              asxpy_row S (frag_probs S ! c) u (z * z_sum - tmix S ! u) c = Some p1
            \<and> asxpy_row S p1 v ((1 - z) * z_sum - tmix S ! v) c = Some p2
            \<and> run_inter_transcript N S u v
                = Some (S\<lparr>rng := rng S + 2,
                          frag_probs := (frag_probs S)[c := p2],
                          tmix := (tmix S)[u := z * z_sum, v := (1 - z) * z_sum]\<rparr>)"
    by blast
qed

text \<open>
  An example: two transcripts that share the two fragments of one component, and
  numerics over the real numbers in which a number is finite when its magnitude is
  below \<open>10\<^sup>3\<^sup>8\<close>, the likelihood is out of that range, and every uniform draw is \<open>1/4\<close>.
\<close>

definition S_example :: "real Sampler" where
  "S_example =
     \<lparr>weight_matrix =
        \<lparr>nrow = 2, ncol = 2, rowlens = [2, 1], reserved = [2, 1],
         rows = [[1 / 2, 1 / 2], [1]], idxs = [[0, 1], [1]], compacted = True\<rparr>,
      num_components = 1, transcript_component = [0, 0], component_frag = [0, 2],
      frag_counts = [[1, 1]], frag_probs = [[1 / 4, 3 / 4]], frag_probs_prop = [[0, 0]],
      tmix = [1 / 2, 1 / 2], rng = 0\<rparr>"

definition N_example :: "real numerics" where
  "N_example =
     \<lparr>zero_eps = 1 / 10 ^ 12, xmin = 1 / 10 ^ 12, xmax = 1 - 1 / 10 ^ 12, xeps = 1 / 10 ^ 4,
      leps = 1 / 10 ^ 10, dotlog = (\<lambda>counts probs n. - (10 ^ 39)), fastlog2 = (\<lambda>x. - 2),
      isfinite = (\<lambda>x. \<bar>x\<bar> < 10 ^ 38), gsl_rng_uniform = (\<lambda>k. 1 / 4)\<rparr>"

lemma wf_S_example: "wf_sampler S_example"
  by (simp add: wf_sampler_def S_example_def frag_range_def upt_rec)

theorem run_inter_transcript_degenerate_witness:
  "run_inter_transcript N_example (S_example\<lparr>tmix := [0, 0], frag_probs := [[0, 0]]\<rparr>) 0 1
     = Some (S_example\<lparr>tmix := [0, 0], frag_probs := [[0, 0]]\<rparr>)
   \<and> wf_sampler S_example
   \<and> \<not> isfinite N_example (fastlog2 N_example (gsl_rng_uniform N_example 0)
        + dotlog N_example [1, 1] [1 / 4, 3 / 4] 2)
   \<and> run_inter_transcript N_example S_example 0 1
     = Some (S_example\<lparr>rng := 2, frag_probs := [[1 / 8, 7 / 8]], tmix := [1 / 4, 3 / 4]\<rparr>)"
  using run_inter_transcript_degenerate[where N = N_example
      and S = "S_example\<lparr>tmix := [0, 0], frag_probs := [[0, 0]]\<rparr>" and u = 0 and v = 1]
    run_inter_transcript_degenerate[where N = N_example and S = S_example and u = 0 and v = 1]
    wf_S_example
  by (simp add: S_example_def N_example_def asxpy_row_def asxpy_def cell_def usub32_def upt_rec)

end
